theory Spec2Isabelle
  imports Complex_Main
begin

section \<open>Data model of the Stonehenge game\<close>

text \<open>
  A ley-line is the two-element Python list \<^verbatim>\<open>[tag, cells]\<close>: the tag is
  \<^verbatim>\<open>'n'\<close> while the line is unclaimed and \<^verbatim>\<open>'1'\<close> or \<^verbatim>\<open>'2'\<close> afterwards;
  \<^verbatim>\<open>cells\<close> holds a cell's letter while it is free and the mark of its owner
  afterwards. The board is the dictionary with the keys \<^verbatim>\<open>'rows'\<close>,
  \<^verbatim>\<open>'left'\<close>, \<^verbatim>\<open>'right'\<close>, each a dictionary from \<^verbatim>\<open>0..length\<close> to a
  ley-line; the inner dictionaries are lists here, in key (insertion) order.
\<close>

type_synonym ley_line = "string \<times> string list"

record board =
  rows :: "ley_line list"
  left :: "ley_line list"
  right :: "ley_line list"

record stonehenge_state =
  p1_turn :: bool
  cur_board :: board
  p1_score :: int
  p2_score :: int
  st_length :: int

record stonehenge_game =
  game_length :: int
  current_state :: stonehenge_state

datatype py_error = IndexError | KeyError | ValueError | TypeError

subsection \<open>\<^verbatim>\<open>StonehengeGame.__init__\<close>\<close>

definition letters :: string where
  "letters = ''ABCDEFGHIJKLMNOPQRSTUVWXYZ''"

text \<open>The inner loop \<^verbatim>\<open>for _m in range(num_cells): cells.append(letters[index_letter])\<close>;
  indexing past the alphabet raises.\<close>

fun take_letters :: "nat \<Rightarrow> nat \<Rightarrow> py_error + string list" where
  "take_letters index_letter 0 = Inr []"
| "take_letters index_letter (Suc m) =
     (if index_letter < length letters
      then (case take_letters (Suc index_letter) m of
              Inl e \<Rightarrow> Inl e
            | Inr cells \<Rightarrow> Inr ([letters ! index_letter] # cells))
      else Inl IndexError)"

text \<open>The first loop, \<^verbatim>\<open>for i in range(self.length + 1)\<close>, with the number of
  iterations still to run as the recursion argument.\<close>

fun build_rows :: "int \<Rightarrow> nat \<Rightarrow> nat \<Rightarrow> int \<Rightarrow> py_error + ley_line list" where
  "build_rows n 0 index_letter num_cells = Inr []"
| "build_rows n (Suc k) index_letter num_cells =
     (case take_letters index_letter (nat num_cells) of
        Inl e \<Rightarrow> Inl e
      | Inr cells \<Rightarrow>
          (case build_rows n k (index_letter + nat num_cells)
                  (if num_cells > n then num_cells - 1 else num_cells + 1) of
             Inl e \<Rightarrow> Inl e
           | Inr rs \<Rightarrow> Inr ((''n'', cells) # rs)))"

text \<open>The cells of down-left diagonal \<^verbatim>\<open>i\<close> taken from the rows \<^verbatim>\<open>0..length-1\<close>,
  and of down-right diagonal \<^verbatim>\<open>i\<close> (Python's index \<^verbatim>\<open>-1 - i\<close>).\<close>

definition left_cells :: "ley_line list \<Rightarrow> int \<Rightarrow> nat \<Rightarrow> string list" where
  "left_cells rs n i =
     concat (map (\<lambda>l. if i < length (snd (rs ! l)) then [snd (rs ! l) ! i] else [])
                 [0..<nat n])"

definition right_cells :: "ley_line list \<Rightarrow> int \<Rightarrow> nat \<Rightarrow> string list" where
  "right_cells rs n i =
     concat (map (\<lambda>l. if - 1 - int i \<ge> - int (length (snd (rs ! l)))
                       then [snd (rs ! l) ! (length (snd (rs ! l)) - 1 - i)] else [])
                 [0..<nat n])"

text \<open>\<^verbatim>\<open>d[index][1].append(c)\<close> on a dictionary with the keys \<^verbatim>\<open>0..len-1\<close>.\<close>

definition append_at :: "ley_line list \<Rightarrow> int \<Rightarrow> string \<Rightarrow> py_error + ley_line list" where
  "append_at d index c =
     (if 0 \<le> index \<and> index < int (length d)
      then Inr (d[nat index := (fst (d ! nat index), snd (d ! nat index) @ [c])])
      else Inl KeyError)"

fun append_run :: "ley_line list \<Rightarrow> int \<Rightarrow> int \<Rightarrow> string list \<Rightarrow> py_error + ley_line list" where
  "append_run d index step [] = Inr d"
| "append_run d index step (c # cs) =
     (case append_at d index c of
        Inl e \<Rightarrow> Inl e
      | Inr d' \<Rightarrow> append_run d' (index + step) step cs)"

definition init_board :: "int \<Rightarrow> py_error + board" where
  "init_board n =
     (case build_rows n (nat (n + 1)) 0 2 of
        Inl e \<Rightarrow> Inl e
      | Inr rs \<Rightarrow>
          (let dl = map (\<lambda>i. (''n'', left_cells rs n i)) [0..<nat (n + 1)] in
           if \<not> (0 \<le> n \<and> n < int (length rs)) then Inl KeyError
           else (case append_run dl 1 1 (snd (rs ! nat n)) of
                   Inl e \<Rightarrow> Inl e
                 | Inr dl' \<Rightarrow>
                     (let dr = map (\<lambda>i. (''n'', right_cells rs n i)) [0..<nat (n + 1)] in
                      case append_run dr n (- 1) (snd (rs ! nat n)) of
                        Inl e \<Rightarrow> Inl e
                      | Inr dr' \<Rightarrow> Inr \<lparr>rows = rs, left = dl', right = dr'\<rparr>))))"

text \<open>The constructor, with the side length read from the input as a parameter.\<close>

definition new_game :: "int \<Rightarrow> bool \<Rightarrow> py_error + stonehenge_game" where
  "new_game n is_p1_turn =
     (case init_board n of
        Inl e \<Rightarrow> Inl e
      | Inr b \<Rightarrow>
          Inr \<lparr>game_length = n,
               current_state = \<lparr>p1_turn = is_p1_turn, cur_board = b,
                                 p1_score = 0, p2_score = 0, st_length = n\<rparr>\<rparr>)"

subsection \<open>Terminal test and legal moves\<close>

text \<open>\<^verbatim>\<open>3 * (self.length + 1) / 2\<close> is Python's true division; its value is a
  multiple of one half, read here as a real number.\<close>

definition half_ley_lines :: "int \<Rightarrow> real" where
  "half_ley_lines n = real_of_int (3 * (n + 1)) / 2"

definition is_over :: "stonehenge_game \<Rightarrow> stonehenge_state \<Rightarrow> bool" where
  "is_over g state =
     (real_of_int (p1_score state) \<ge> half_ley_lines (game_length g)
      \<or> real_of_int (p2_score state) \<ge> half_ley_lines (game_length g))"

definition get_possible_moves :: "stonehenge_state \<Rightarrow> string list" where
  "get_possible_moves s =
     (if real_of_int (p1_score s) \<ge> half_ley_lines (st_length s)
         \<or> real_of_int (p2_score s) \<ge> half_ley_lines (st_length s)
      then []
      else concat (map (\<lambda>line. filter (\<lambda>cell. cell \<noteq> ''1'' \<and> cell \<noteq> ''2'') (snd line))
                       (rows (cur_board s))))"

subsection \<open>\<^verbatim>\<open>move_to_board\<close> and \<^verbatim>\<open>make_move\<close>\<close>

text \<open>One iteration of \<^verbatim>\<open>for cell in range(len(states[1]))\<close>. The scores are the
  two-element list \<^verbatim>\<open>[p1, p2]\<close>, a pair here.\<close>

definition mtb_step :: "string \<Rightarrow> string \<Rightarrow> nat \<Rightarrow> (int \<times> int) \<times> ley_line \<Rightarrow> (int \<times> int) \<times> ley_line" where
  "mtb_step move cur_player cell acc =
     (case acc of (scores, (tag, cells)) \<Rightarrow>
        if cells ! cell = move then
          (let cells' = cells[cell := cur_player] in
           if tag = ''n''
              \<and> real (count_list cells' cur_player) \<ge> real (length cells') / 2
              \<and> cur_player = ''2''
           then ((fst scores, snd scores + 1), (''2'', cells'))
           else if tag = ''n''
              \<and> real (count_list cells' cur_player) \<ge> real (length cells') / 2
           then ((fst scores + 1, snd scores), (''1'', cells'))
           else (scores, (tag, cells')))
        else acc)"

definition move_to_board :: "int \<times> int \<Rightarrow> ley_line \<Rightarrow> string \<Rightarrow> string \<Rightarrow> (int \<times> int) \<times> ley_line" where
  "move_to_board player_scores cur_states move cur_player =
     fold (mtb_step move cur_player) [0..<length (snd cur_states)] (player_scores, cur_states)"

text \<open>The inner loop of \<^verbatim>\<open>make_move\<close> over the lines of one of the three
  dictionaries, the scores threaded through.\<close>

fun move_lines :: "int \<times> int \<Rightarrow> ley_line list \<Rightarrow> string \<Rightarrow> string \<Rightarrow> (int \<times> int) \<times> ley_line list" where
  "move_lines scores [] move cur_player = (scores, [])"
| "move_lines scores (l # ls) move cur_player =
     (case move_to_board scores l move cur_player of (scores', l') \<Rightarrow>
        (case move_lines scores' ls move cur_player of (scores'', ls') \<Rightarrow>
           (scores'', l' # ls')))"

definition make_move :: "stonehenge_state \<Rightarrow> string \<Rightarrow> stonehenge_state" where
  "make_move s move =
     (let cur_player = (if \<not> p1_turn s then ''2'' else ''1'');
          scores = (p1_score s, p2_score s)
      in case move_lines scores (rows (cur_board s)) move cur_player of (sc1, rows') \<Rightarrow>
         case move_lines sc1 (left (cur_board s)) move cur_player of (sc2, left') \<Rightarrow>
         case move_lines sc2 (right (cur_board s)) move cur_player of (sc3, right') \<Rightarrow>
           \<lparr>p1_turn = (cur_player = ''2''),
            cur_board = \<lparr>rows = rows', left = left', right = right'\<rparr>,
            p1_score = fst sc3, p2_score = snd sc3, st_length = st_length s\<rparr>)"

section \<open>The board model in closed form\<close>

subsection \<open>The thresholds over the integers\<close>

lemma half_ley_lines_le [simp]: "(half_ley_lines n \<le> real_of_int p) = (3 * (n + 1) \<le> 2 * p)"
proof -
  have "(real_of_int (3 * (n + 1)) / 2 \<le> real_of_int p) = (real_of_int (3 * (n + 1)) \<le> real_of_int (2 * p))"
    by (simp add: field_simps)
  then show ?thesis unfolding half_ley_lines_def by (simp only: of_int_le_iff)
qed

lemma ge_half: "(real n / 2 \<le> real c) = (n \<le> 2 * c)"
proof -
  have "(real n / 2 \<le> real c) = (real n \<le> real (2 * c))"
    by (simp add: field_simps)
  then show ?thesis by (simp only: of_nat_le_iff)
qed

text \<open>The loop body with the comparison over the naturals.\<close>

lemma mtb_step_nat:
  "mtb_step move cur_player cell (scores, (tag, cells)) =
     (if cells ! cell = move then
        (if tag = ''n'' \<and> length cells \<le> 2 * count_list (cells[cell := cur_player]) cur_player
            \<and> cur_player = ''2''
         then ((fst scores, snd scores + 1), (''2'', cells[cell := cur_player]))
         else if tag = ''n'' \<and> length cells \<le> 2 * count_list (cells[cell := cur_player]) cur_player
         then ((fst scores + 1, snd scores), (''1'', cells[cell := cur_player]))
         else (scores, (tag, cells[cell := cur_player])))
      else (scores, (tag, cells)))"
  unfolding mtb_step_def Let_def ge_half by auto

subsection \<open>\<^verbatim>\<open>move_to_board\<close> in closed form\<close>

text \<open>The effect of \<^verbatim>\<open>move_to_board\<close>: every cell equal to the move is
  overwritten, and the line is captured when it was free, held the move, and the
  mover owns at least half of it afterwards.\<close>

definition claim_cell :: "string \<Rightarrow> string \<Rightarrow> string \<Rightarrow> string" where
  "claim_cell move cur_player c = (if c = move then cur_player else c)"

definition captured_now :: "string \<Rightarrow> string \<Rightarrow> ley_line \<Rightarrow> bool" where
  "captured_now move cur_player l =
     (fst l = ''n'' \<and> move \<in> set (snd l)
      \<and> length (snd l) \<le> 2 * count_list (map (claim_cell move cur_player) (snd l)) cur_player)"

definition mtb_result :: "int \<times> int \<Rightarrow> string \<Rightarrow> string list \<Rightarrow> bool \<Rightarrow> string \<Rightarrow> (int \<times> int) \<times> ley_line" where
  "mtb_result scores tag cells cap cur_player =
     (if cap then (if cur_player = ''2'' then ((fst scores, snd scores + 1), (''2'', cells))
                   else ((fst scores + 1, snd scores), (''1'', cells)))
      else (scores, (tag, cells)))"

lemma count_list_update_ge: "k < length xs \<Longrightarrow> count_list xs p \<le> count_list (xs[k := p]) p"
proof (induction xs arbitrary: k)
  case Nil then show ?case by simp
next
  case (Cons x xs) then show ?case by (cases k) auto
qed

lemma claim_prefix_nth:
  "k < length cells \<Longrightarrow> (map f (take k cells) @ drop k cells) ! k = cells ! k"
  by (simp add: nth_append)

lemma claim_prefix_step:
  assumes k: "k < length cells"
  shows "(map f (take k cells) @ drop k cells)[k := f (cells ! k)] =
         map f (take (Suc k) cells) @ drop (Suc k) cells"
proof -
  have d: "drop k cells = cells ! k # drop (Suc k) cells"
    using k by (simp add: Cons_nth_drop_Suc)
  have t: "take (Suc k) cells = take k cells @ [cells ! k]"
    using k by (simp add: take_Suc_conv_app_nth)
  have l: "length (map f (take k cells)) = k" using k by simp
  show ?thesis unfolding d t using l by (simp add: list_update_append)
qed

lemma mtb_step_miss:
  "snd (snd r) ! k \<noteq> move \<Longrightarrow> mtb_step move p k r = r"
  by (cases r) (auto simp: mtb_step_nat)

lemma mtb_result_cells: "snd (snd (mtb_result sc tag cs cap p)) = cs"
  by (simp add: mtb_result_def)

lemma mtb_step_hit:
  "cs ! k = move \<Longrightarrow>
   mtb_step move p k (sc, (tag, cs)) =
   mtb_result sc tag (cs[k := p]) (tag = ''n'' \<and> length cs \<le> 2 * count_list (cs[k := p]) p) p"
  by (auto simp: mtb_step_nat mtb_result_def)

lemma mtb_result_False: "mtb_result sc tag cs False p = (sc, (tag, cs))"
  by (simp add: mtb_result_def)

lemma mtb_result_True:
  "\<exists>sc' tag'. tag' \<noteq> ''n'' \<and> (\<forall>cs'. mtb_result sc tag cs' True p = (sc', (tag', cs')))"
proof (cases "p = ''2''")
  case True
  then show ?thesis
    by (intro exI [of _ "(fst sc, snd sc + 1)"] exI [of _ "''2''"]) (simp add: mtb_result_def)
next
  case False
  then show ?thesis
    by (intro exI [of _ "(fst sc + 1, snd sc)"] exI [of _ "''1''"]) (simp add: mtb_result_def)
qed

lemma mtb_prefix:
  "k \<le> length cells \<Longrightarrow>
   fold (mtb_step move p) [0..<k] (sc, (tag, cells)) =
   mtb_result sc tag (map (claim_cell move p) (take k cells) @ drop k cells)
     (tag = ''n'' \<and> move \<in> set (take k cells)
      \<and> length cells \<le> 2 * count_list (map (claim_cell move p) (take k cells) @ drop k cells) p) p"
proof (induction k)
  case 0
  then show ?case by (simp add: mtb_result_def)
next
  case (Suc k)
  define ck where "ck = map (claim_cell move p) (take k cells) @ drop k cells"
  define ck' where "ck' = map (claim_cell move p) (take (Suc k) cells) @ drop (Suc k) cells"
  define capk where "capk = (tag = ''n'' \<and> move \<in> set (take k cells) \<and> length cells \<le> 2 * count_list ck p)"
  have k: "k < length cells" using Suc.prems by simp
  have nth: "ck ! k = cells ! k" unfolding ck_def using k by (rule claim_prefix_nth)
  have len: "length ck = length cells" unfolding ck_def by simp
  have step: "ck[k := claim_cell move p (cells ! k)] = ck'"
    unfolding ck_def ck'_def using k by (rule claim_prefix_step)
  have mem: "(move \<in> set (take (Suc k) cells)) = (move \<in> set (take k cells) \<or> cells ! k = move)"
    using k by (auto simp: take_Suc_conv_app_nth)
  have IH: "fold (mtb_step move p) [0..<k] (sc, (tag, cells)) = mtb_result sc tag ck capk p"
    unfolding ck_def capk_def using Suc.IH k by simp
  have goal: "mtb_step move p k (mtb_result sc tag ck capk p) =
     mtb_result sc tag ck' (tag = ''n'' \<and> move \<in> set (take (Suc k) cells) \<and> length cells \<le> 2 * count_list ck' p) p"
  proof (cases "cells ! k = move")
    case False
    have same: "ck' = ck"
      using step nth False by (simp add: claim_cell_def) (metis list_update_id)
    have "mtb_step move p k (mtb_result sc tag ck capk p) = mtb_result sc tag ck capk p"
      using False nth by (simp add: mtb_step_miss mtb_result_cells)
    then show ?thesis using False mem same by (simp add: capk_def)
  next
    case True
    have upd: "ck[k := p] = ck'" using step True by (simp add: claim_cell_def)
    have mono: "count_list ck p \<le> count_list ck' p"
      using count_list_update_ge [of k ck p] k upd len by simp
    have hit: "ck ! k = move" using nth True by simp
    show ?thesis
    proof (cases capk)
      case False
      then have "mtb_step move p k (mtb_result sc tag ck capk p) =
        mtb_result sc tag ck' (tag = ''n'' \<and> length cells \<le> 2 * count_list ck' p) p"
        using mtb_step_hit [OF hit, of p sc tag] upd len by (simp add: mtb_result_False)
      then show ?thesis using True mem by simp
    next
      case c: True
      obtain sc' tag' where t: "tag' \<noteq> ''n''"
        and r: "\<And>cs'. mtb_result sc tag cs' True p = (sc', (tag', cs'))"
        using mtb_result_True [of sc tag p] by blast
      have capk': "tag = ''n'' \<and> length cells \<le> 2 * count_list ck' p"
        using c mono by (simp add: capk_def)
      have "mtb_step move p k (mtb_result sc tag ck capk p) = mtb_step move p k (sc', (tag', ck))"
        using c r by simp
      also have "\<dots> = (sc', (tag', ck'))"
        using mtb_step_hit [OF hit, of p sc' tag'] upd t by (simp add: mtb_result_def)
      also have "\<dots> = mtb_result sc tag ck' True p" using r by simp
      finally show ?thesis using capk' True mem by simp
    qed
  qed
  show ?case using IH goal by (simp add: ck'_def)
qed

lemma move_to_board_eq:
  "move_to_board sc l move p =
   mtb_result sc (fst l) (map (claim_cell move p) (snd l)) (captured_now move p l) p"
  using mtb_prefix [of "length (snd l)" "snd l" move p sc "fst l"]
  by (simp add: move_to_board_def captured_now_def)

subsection \<open>\<^verbatim>\<open>make_move\<close> in closed form\<close>

definition mover :: "stonehenge_state \<Rightarrow> string" where
  "mover s = (if \<not> p1_turn s then ''2'' else ''1'')"

definition all_lines :: "board \<Rightarrow> ley_line list" where
  "all_lines b = rows b @ left b @ right b"

definition line_after :: "string \<Rightarrow> string \<Rightarrow> ley_line \<Rightarrow> ley_line" where
  "line_after move p l =
     (if captured_now move p l then (if p = ''2'' then ''2'' else ''1'') else fst l,
      map (claim_cell move p) (snd l))"

definition add_score :: "string \<Rightarrow> int \<Rightarrow> int \<times> int \<Rightarrow> int \<times> int" where
  "add_score p k sc = (if p = ''2'' then (fst sc, snd sc + k) else (fst sc + k, snd sc))"

definition captures :: "string \<Rightarrow> string \<Rightarrow> ley_line list \<Rightarrow> int" where
  "captures move p ls = int (length (filter (captured_now move p) ls))"

lemma move_to_board_line:
  "move_to_board sc l move p =
   (add_score p (if captured_now move p l then 1 else 0) sc, line_after move p l)"
  by (cases sc) (simp add: move_to_board_eq mtb_result_def line_after_def add_score_def)

lemma add_score_add: "add_score p j (add_score p k sc) = add_score p (k + j) sc"
  by (simp add: add_score_def)

lemma move_lines_eq:
  "move_lines sc ls move p = (add_score p (captures move p ls) sc, map (line_after move p) ls)"
proof (induction ls arbitrary: sc)
  case Nil
  show ?case by (cases sc) (simp add: captures_def add_score_def)
next
  case (Cons l ls)
  show ?case
    by (simp add: Cons.IH move_to_board_line add_score_add captures_def)
qed

lemma make_move_eq:
  "make_move s move =
   \<lparr>p1_turn = \<not> p1_turn s,
    cur_board = \<lparr>rows = map (line_after move (mover s)) (rows (cur_board s)),
                 left = map (line_after move (mover s)) (left (cur_board s)),
                 right = map (line_after move (mover s)) (right (cur_board s))\<rparr>,
    p1_score = fst (add_score (mover s) (captures move (mover s) (all_lines (cur_board s)))
                      (p1_score s, p2_score s)),
    p2_score = snd (add_score (mover s) (captures move (mover s) (all_lines (cur_board s)))
                      (p1_score s, p2_score s)),
    st_length = st_length s\<rparr>"
  by (simp add: make_move_def Let_def move_lines_eq add_score_add mover_def all_lines_def
      captures_def add.assoc)

lemma p1_turn_make_move [simp]: "p1_turn (make_move s move) = (\<not> p1_turn s)"
  by (simp add: make_move_eq)

lemma st_length_make_move [simp]: "st_length (make_move s move) = st_length s"
  by (simp add: make_move_eq)

lemma rows_make_move:
  "rows (cur_board (make_move s move)) = map (line_after move (mover s)) (rows (cur_board s))"
  by (simp add: make_move_eq)

lemma left_make_move:
  "left (cur_board (make_move s move)) = map (line_after move (mover s)) (left (cur_board s))"
  by (simp add: make_move_eq)

lemma right_make_move:
  "right (cur_board (make_move s move)) = map (line_after move (mover s)) (right (cur_board s))"
  by (simp add: make_move_eq)

lemma all_lines_make_move:
  "all_lines (cur_board (make_move s move)) = map (line_after move (mover s)) (all_lines (cur_board s))"
  by (simp add: all_lines_def rows_make_move left_make_move right_make_move)

lemma score_sum_make_move:
  "p1_score (make_move s move) + p2_score (make_move s move) =
   p1_score s + p2_score s + captures move (mover s) (all_lines (cur_board s))"
  by (simp add: make_move_eq add_score_def)

lemma mover_cases: "mover s = ''1'' \<or> mover s = ''2''"
  by (simp add: mover_def)

subsection \<open>The legal moves are the free cells of the rows\<close>

lemma is_over_int [code]:
  "is_over g state =
     (3 * (game_length g + 1) \<le> 2 * p1_score state \<or> 3 * (game_length g + 1) \<le> 2 * p2_score state)"
  by (simp add: is_over_def)

definition free_cells :: "ley_line \<Rightarrow> string list" where
  "free_cells l = filter (\<lambda>cell. cell \<noteq> ''1'' \<and> cell \<noteq> ''2'') (snd l)"

definition free_rows :: "stonehenge_state \<Rightarrow> string list" where
  "free_rows s = concat (map free_cells (rows (cur_board s)))"

definition over_threshold :: "stonehenge_state \<Rightarrow> bool" where
  "over_threshold s =
     (3 * (st_length s + 1) \<le> 2 * p1_score s \<or> 3 * (st_length s + 1) \<le> 2 * p2_score s)"

lemma get_possible_moves_int [code]:
  "get_possible_moves s = (if over_threshold s then [] else free_rows s)"
  by (simp add: get_possible_moves_def over_threshold_def free_rows_def free_cells_def [abs_def])

declare mtb_step_nat [code]

subsection \<open>The side-length-1 game\<close>

definition state1 :: stonehenge_state where
  "state1 = \<lparr>p1_turn = True,
             cur_board = \<lparr>rows = [(''n'', [''A'', ''B'']), (''n'', [''C''])],
                          left = [(''n'', [''A'']), (''n'', [''B'', ''C''])],
                          right = [(''n'', [''B'']), (''n'', [''A'', ''C''])]\<rparr>,
             p1_score = 0, p2_score = 0, st_length = 1\<rparr>"

definition game1 :: stonehenge_game where
  "game1 = \<lparr>game_length = 1, current_state = state1\<rparr>"

definition state1_A :: stonehenge_state where
  "state1_A = \<lparr>p1_turn = False,
               cur_board = \<lparr>rows = [(''1'', [''1'', ''B'']), (''n'', [''C''])],
                            left = [(''1'', [''1'']), (''n'', [''B'', ''C''])],
                            right = [(''n'', [''B'']), (''1'', [''1'', ''C''])]\<rparr>,
               p1_score = 3, p2_score = 0, st_length = 1\<rparr>"

lemma new_game_1: "new_game 1 True = Inr game1"
  by code_simp

lemma make_move_state1_A: "make_move state1 ''A'' = state1_A"
  by code_simp

subsection \<open>A label that matches no cell, and tags that are set\<close>

lemma claim_cell_absent: "move \<notin> set cs \<Longrightarrow> map (claim_cell move p) cs = cs"
  by (induction cs) (auto simp: claim_cell_def)

lemma line_after_absent: "move \<notin> set (snd l) \<Longrightarrow> line_after move p l = l"
  by (cases l) (simp add: line_after_def captured_now_def claim_cell_absent)

lemma map_line_after_absent:
  "move \<notin> set (concat (map snd ls)) \<Longrightarrow> map (line_after move p) ls = ls"
  by (induction ls) (simp_all add: line_after_absent)

lemma captures_absent: "move \<notin> set (concat (map snd ls)) \<Longrightarrow> captures move p ls = 0"
  by (induction ls) (simp_all add: captures_def captured_now_def)

lemma fst_line_after_captured: "fst l \<noteq> ''n'' \<Longrightarrow> fst (line_after move p l) = fst l"
  by (simp add: line_after_def captured_now_def)

definition region_tags :: "board \<Rightarrow> string list" where
  "region_tags b = map fst (all_lines b)"

lemma region_tags_make_move:
  "length (region_tags (cur_board (make_move s move))) = length (region_tags (cur_board s)) \<and>
   (\<forall>i < length (region_tags (cur_board s)).
      region_tags (cur_board s) ! i \<noteq> ''n'' \<longrightarrow>
      region_tags (cur_board (make_move s move)) ! i = region_tags (cur_board s) ! i)"
  by (simp add: region_tags_def all_lines_make_move fst_line_after_captured)

section \<open>Reachable states and their invariant\<close>

text \<open>A play from a state: each move is one of the state's possible moves, as the
  strategies and the game loop choose them.\<close>

fun play :: "stonehenge_state \<Rightarrow> string list \<Rightarrow> stonehenge_state option" where
  "play s [] = Some s"
| "play s (m # ms) =
     (if m \<in> set (get_possible_moves s) then play (make_move s m) ms else None)"

definition line_ok :: "ley_line \<Rightarrow> bool" where
  "line_ok l =
     (fst l = ''n'' \<longrightarrow>
        2 * count_list (snd l) ''1'' < length (snd l) \<and>
        2 * count_list (snd l) ''2'' < length (snd l))"

definition captured_count :: "board \<Rightarrow> nat" where
  "captured_count b = length (filter (\<lambda>l. fst l \<noteq> ''n'') (all_lines b))"

definition state_ok :: "stonehenge_state \<Rightarrow> bool" where
  "state_ok s =
     (list_all line_ok (all_lines (cur_board s))
      \<and> p1_score s + p2_score s = int (captured_count (cur_board s))
      \<and> int (length (all_lines (cur_board s))) = 3 * (st_length s + 1)
      \<and> list_all (\<lambda>l. list_all (\<lambda>c. c \<in> set (free_rows s)) (free_cells l))
           (left (cur_board s) @ right (cur_board s))
      \<and> distinct (free_rows s))"

subsection \<open>The constructor succeeds for the side lengths 1 to 5 only\<close>

lemma length_letters: "length letters = 26"
  by (simp add: letters_def)

lemma take_letters_fail:
  "26 < index_letter + m \<Longrightarrow> 0 < m \<Longrightarrow> take_letters index_letter m = Inl IndexError"
proof (induction m arbitrary: index_letter)
  case 0
  then show ?case by simp
next
  case (Suc m)
  show ?case
  proof (cases "index_letter < 26")
    case True
    then have "26 < Suc index_letter + m" "0 < m" using Suc.prems by simp_all
    then have "take_letters (Suc index_letter) m = Inl IndexError" by (rule Suc.IH)
    then show ?thesis by simp
  next
    case False
    then show ?thesis by (simp add: length_letters)
  qed
qed

lemma take_letters_ok: "index_letter + m \<le> 26 \<Longrightarrow> \<exists>cells. take_letters index_letter m = Inr cells"
proof (induction m arbitrary: index_letter)
  case 0
  then show ?case by simp
next
  case (Suc m)
  then have "\<exists>cells. take_letters (Suc index_letter) m = Inr cells" by simp
  then show ?case using Suc.prems by (auto simp: length_letters)
qed

lemma build_rows_step_ok:
  assumes "index_letter + nat num_cells \<le> 26"
    and "build_rows n k (index_letter + nat num_cells)
           (if num_cells > n then num_cells - 1 else num_cells + 1) = Inl e"
  shows "build_rows n (Suc k) index_letter num_cells = Inl e"
proof -
  obtain cells where "take_letters index_letter (nat num_cells) = Inr cells"
    using take_letters_ok [OF assms(1)] by blast
  then show ?thesis using assms(2) by simp
qed

lemma build_rows_step_fail:
  "26 < index_letter + nat num_cells \<Longrightarrow> 0 < num_cells \<Longrightarrow>
   build_rows n (Suc k) index_letter num_cells = Inl IndexError"
  by (simp add: take_letters_fail)

lemma build_rows_big:
  assumes "6 \<le> n"
  shows "build_rows n (nat (n + 1)) 0 2 = Inl IndexError"
proof -
  define k where "k = nat (n + 1) - 6"
  have "nat (n + 1) = 6 + k" using assms by (simp add: k_def)
  then have k: "nat (n + 1) = Suc (Suc (Suc (Suc (Suc (Suc k)))))" by simp
  have 5: "build_rows n (Suc k) 20 7 = Inl IndexError"
    by (rule build_rows_step_fail) simp_all
  have 4: "build_rows n (Suc (Suc k)) 14 6 = Inl IndexError"
    by (rule build_rows_step_ok) (use assms 5 in \<open>simp_all del: build_rows.simps\<close>)
  have 3: "build_rows n (Suc (Suc (Suc k))) 9 5 = Inl IndexError"
    by (rule build_rows_step_ok) (use assms 4 in \<open>simp_all del: build_rows.simps\<close>)
  have 2: "build_rows n (Suc (Suc (Suc (Suc k)))) 5 4 = Inl IndexError"
    by (rule build_rows_step_ok) (use assms 3 in \<open>simp_all del: build_rows.simps\<close>)
  have 1: "build_rows n (Suc (Suc (Suc (Suc (Suc k))))) (Suc (Suc 0)) 3 = Inl IndexError"
    by (rule build_rows_step_ok) (use assms 2 in \<open>simp_all del: build_rows.simps\<close>)
  have 0: "build_rows n (Suc (Suc (Suc (Suc (Suc (Suc k)))))) 0 2 = Inl IndexError"
    by (rule build_rows_step_ok) (use assms 1 in \<open>simp_all del: build_rows.simps add: eval_nat_numeral\<close>)
  show ?thesis using 0 k by simp
qed

lemma init_board_side_length:
  assumes "init_board n = Inr b"
  shows "n = 1 \<or> n = 2 \<or> n = 3 \<or> n = 4 \<or> n = 5"
proof -
  have "\<not> 6 \<le> n"
    using assms build_rows_big [of n] by (auto simp: init_board_def)
  moreover have "\<not> n < 0"
  proof
    assume "n < 0"
    then have "init_board n = Inl KeyError" by (simp add: init_board_def)
    then show False using assms by simp
  qed
  moreover have "n \<noteq> 0"
  proof
    assume "n = 0"
    moreover have "init_board 0 = Inl KeyError" by code_simp
    ultimately show False using assms by simp
  qed
  ultimately show ?thesis by arith
qed

definition fresh_ok :: "int \<Rightarrow> bool \<Rightarrow> bool" where
  "fresh_ok n t =
     (case new_game n t of
        Inl e \<Rightarrow> False
      | Inr g \<Rightarrow> game_length g = n \<and> st_length (current_state g) = n
                 \<and> state_ok (current_state g))"

lemma fresh_ok_all: "list_all (\<lambda>n. fresh_ok n True \<and> fresh_ok n False) [1, 2, 3, 4, 5]"
  by code_simp

lemma new_game_ok:
  assumes "new_game n t = Inr g"
  shows "game_length g = n \<and> st_length (current_state g) = n \<and> state_ok (current_state g)"
proof -
  obtain b where "init_board n = Inr b"
    using assms by (auto simp: new_game_def split: sum.splits)
  then have "n = 1 \<or> n = 2 \<or> n = 3 \<or> n = 4 \<or> n = 5" by (rule init_board_side_length)
  then have "fresh_ok n True \<and> fresh_ok n False" using fresh_ok_all by auto
  then have "fresh_ok n t" by (cases t) simp_all
  then show ?thesis using assms by (simp add: fresh_ok_def)
qed

subsection \<open>The invariant is kept by every legal move\<close>

lemma count_claim_other:
  "q \<noteq> move \<Longrightarrow> q \<noteq> p \<Longrightarrow> count_list (map (claim_cell move p) cs) q = count_list cs q"
  by (induction cs) (auto simp: claim_cell_def)

lemma line_ok_after:
  assumes ok: "line_ok l" and p: "p = ''1'' \<or> p = ''2''"
    and m: "move \<noteq> ''1''" "move \<noteq> ''2''"
  shows "line_ok (line_after move p l)"
proof (cases "captured_now move p l")
  case True
  then show ?thesis using p by (auto simp: line_ok_def line_after_def)
next
  case nc: False
  show ?thesis
  proof (cases "move \<in> set (snd l)")
    case False
    then show ?thesis using ok by (simp add: line_after_absent)
  next
    case True
    show ?thesis unfolding line_ok_def
    proof
      assume "fst (line_after move p l) = ''n''"
      then have n: "fst l = ''n''" using nc by (simp add: line_after_def)
      then have small: "2 * count_list (map (claim_cell move p) (snd l)) p < length (snd l)"
        using nc True by (simp add: captured_now_def)
      have old: "2 * count_list (snd l) ''1'' < length (snd l)"
        "2 * count_list (snd l) ''2'' < length (snd l)"
        using ok n by (simp_all add: line_ok_def)
      have "2 * count_list (map (claim_cell move p) (snd l)) q < length (snd l)"
        if "q = ''1'' \<or> q = ''2''" for q
      proof (cases "q = p")
        case True
        then show ?thesis using small by simp
      next
        case False
        then have "count_list (map (claim_cell move p) (snd l)) q = count_list (snd l) q"
          using that m by (intro count_claim_other) auto
        then show ?thesis using old that by auto
      qed
      then show "2 * count_list (snd (line_after move p l)) ''1'' < length (snd (line_after move p l)) \<and>
         2 * count_list (snd (line_after move p l)) ''2'' < length (snd (line_after move p l))"
        by (simp add: line_after_def)
    qed
  qed
qed

lemma tagged_after:
  "(fst (line_after move p l) \<noteq> ''n'') = (fst l \<noteq> ''n'' \<or> captured_now move p l)"
  by (simp add: line_after_def)

lemma captured_then_free: "captured_now move p l \<Longrightarrow> fst l = ''n''"
  by (simp add: captured_now_def)

lemma tagged_count_after:
  "length (filter (\<lambda>l. fst l \<noteq> ''n'') (map (line_after move p) ls)) =
   length (filter (\<lambda>l. fst l \<noteq> ''n'') ls) + length (filter (captured_now move p) ls)"
proof (induction ls)
  case Nil
  show ?case by simp
next
  case (Cons l ls)
  show ?case using Cons.IH captured_then_free [of move p l]
    by (auto simp: tagged_after)
qed

lemma captured_count_make_move:
  "int (captured_count (cur_board (make_move s move))) =
   int (captured_count (cur_board s)) + captures move (mover s) (all_lines (cur_board s))"
  unfolding captured_count_def all_lines_make_move captures_def tagged_count_after by simp

lemma free_cells_after:
  assumes "p = ''1'' \<or> p = ''2''"
  shows "free_cells (line_after move p l) = filter (\<lambda>c. c \<noteq> move) (free_cells l)"
proof -
  have "filter (\<lambda>cell. cell \<noteq> ''1'' \<and> cell \<noteq> ''2'') (map (claim_cell move p) cs) =
        filter (\<lambda>c. c \<noteq> move) (filter (\<lambda>cell. cell \<noteq> ''1'' \<and> cell \<noteq> ''2'') cs)" for cs
    using assms by (induction cs) (auto simp: claim_cell_def)
  then show ?thesis by (simp add: free_cells_def line_after_def)
qed

lemma free_rows_make_move:
  "free_rows (make_move s move) = filter (\<lambda>c. c \<noteq> move) (free_rows s)"
proof -
  have "concat (map free_cells (map (line_after move (mover s)) ls)) =
        filter (\<lambda>c. c \<noteq> move) (concat (map free_cells ls))" for ls
    by (induction ls) (simp_all add: free_cells_after [OF mover_cases])
  then show ?thesis by (simp add: free_rows_def rows_make_move)
qed

lemma free_rows_not_mark: "c \<in> set (free_rows s) \<Longrightarrow> c \<noteq> ''1'' \<and> c \<noteq> ''2''"
  by (auto simp: free_rows_def free_cells_def)

lemma state_ok_make_move:
  assumes ok: "state_ok s" and m: "move \<in> set (free_rows s)"
  shows "state_ok (make_move s move)"
proof -
  let ?s = "make_move s move"
  have nm: "move \<noteq> ''1''" "move \<noteq> ''2''" using free_rows_not_mark [OF m] by simp_all
  have lines: "list_all line_ok (all_lines (cur_board ?s))"
    using ok line_ok_after [OF _ mover_cases nm]
    by (auto simp: state_ok_def all_lines_make_move list_all_iff)
  have sum: "p1_score ?s + p2_score ?s = int (captured_count (cur_board ?s))"
    using ok by (simp add: state_ok_def score_sum_make_move captured_count_make_move)
  have len: "int (length (all_lines (cur_board ?s))) = 3 * (st_length ?s + 1)"
    using ok by (simp add: state_ok_def all_lines_make_move)
  have old: "\<forall>l \<in> set (left (cur_board s) @ right (cur_board s)).
               \<forall>c \<in> set (free_cells l). c \<in> set (free_rows s)"
    using ok by (simp add: state_ok_def list_all_iff)
  have "\<forall>c \<in> set (free_cells l'). c \<in> set (free_rows ?s)"
    if "l' \<in> set (left (cur_board ?s) @ right (cur_board ?s))" for l'
  proof -
    have "l' \<in> line_after move (mover s) ` set (left (cur_board s) @ right (cur_board s))"
      using that by (simp add: left_make_move right_make_move image_Un)
    then obtain l where l: "l \<in> set (left (cur_board s) @ right (cur_board s))"
      and l': "l' = line_after move (mover s) l"
      by blast
    show ?thesis
      using old l unfolding l' free_cells_after [OF mover_cases] free_rows_make_move
      by simp
  qed
  then have sub: "list_all (\<lambda>l. list_all (\<lambda>c. c \<in> set (free_rows ?s)) (free_cells l))
               (left (cur_board ?s) @ right (cur_board ?s))"
    unfolding list_all_iff by blast
  have dist: "distinct (free_rows ?s)"
    using ok by (simp add: state_ok_def free_rows_make_move)
  show ?thesis using lines sum len sub dist by (simp add: state_ok_def)
qed

lemma possible_move_free: "m \<in> set (get_possible_moves s) \<Longrightarrow> m \<in> set (free_rows s)"
  by (simp add: get_possible_moves_int split: if_splits)

lemma play_ok:
  "state_ok s \<Longrightarrow> play s ms = Some s' \<Longrightarrow> state_ok s' \<and> st_length s' = st_length s"
proof (induction ms arbitrary: s)
  case Nil
  then show ?case by simp
next
  case (Cons m ms)
  from Cons.prems(2) have m: "m \<in> set (get_possible_moves s)"
    and rest: "play (make_move s m) ms = Some s'"
    by (simp_all split: if_splits)
  have "state_ok (make_move s m)"
    using Cons.prems(1) possible_move_free [OF m] by (rule state_ok_make_move)
  from Cons.IH [OF this rest] show ?case by simp
qed

subsection \<open>A full board is a finished game\<close>

lemma count_two_marks:
  "\<forall>c \<in> set cs. c = ''1'' \<or> c = ''2'' \<Longrightarrow> count_list cs ''1'' + count_list cs ''2'' = length cs"
  by (induction cs) auto

lemma full_line_tagged:
  assumes "line_ok l" and "free_cells l = []"
  shows "fst l \<noteq> ''n''"
proof
  assume n: "fst l = ''n''"
  have "\<forall>c \<in> set (snd l). c = ''1'' \<or> c = ''2''"
    using assms(2) by (auto simp: free_cells_def filter_empty_conv)
  then have "count_list (snd l) ''1'' + count_list (snd l) ''2'' = length (snd l)"
    by (rule count_two_marks)
  then show False using assms(1) n by (simp add: line_ok_def)
qed

lemma full_board_over:
  assumes ok: "state_ok s" and full: "free_rows s = []"
  shows "over_threshold s"
proof -
  have "free_cells l = []" if "l \<in> set (all_lines (cur_board s))" for l
  proof (cases "l \<in> set (rows (cur_board s))")
    case True
    then show ?thesis using full by (auto simp: free_rows_def)
  next
    case False
    then have "l \<in> set (left (cur_board s) @ right (cur_board s))"
      using that by (auto simp: all_lines_def)
    then have "\<forall>c \<in> set (free_cells l). c \<in> set (free_rows s)"
      using ok by (auto simp: state_ok_def list_all_iff)
    then show ?thesis using full by (cases "free_cells l") auto
  qed
  then have "\<forall>l \<in> set (all_lines (cur_board s)). fst l \<noteq> ''n''"
    using ok full_line_tagged by (auto simp: state_ok_def list_all_iff)
  then have "captured_count (cur_board s) = length (all_lines (cur_board s))"
    by (simp add: captured_count_def)
  then have "p1_score s + p2_score s = 3 * (st_length s + 1)"
    using ok by (simp add: state_ok_def)
  then show ?thesis by (auto simp: over_threshold_def)
qed

lemma no_moves_iff_over: "state_ok s \<Longrightarrow> (get_possible_moves s = []) = over_threshold s"
  using full_board_over [of s] by (auto simp: get_possible_moves_int)

subsection \<open>The side-length-2 game\<close>

definition state2 :: stonehenge_state where
  "state2 = \<lparr>p1_turn = True,
             cur_board = \<lparr>rows = [(''n'', [''A'', ''B'']), (''n'', [''C'', ''D'', ''E'']),
                                  (''n'', [''F'', ''G''])],
                          left = [(''n'', [''A'', ''C'']), (''n'', [''B'', ''D'', ''F'']),
                                  (''n'', [''E'', ''G''])],
                          right = [(''n'', [''B'', ''E'']), (''n'', [''A'', ''D'', ''G'']),
                                   (''n'', [''C'', ''F''])]\<rparr>,
             p1_score = 0, p2_score = 0, st_length = 2\<rparr>"

definition game2 :: stonehenge_game where
  "game2 = \<lparr>game_length = 2, current_state = state2\<rparr>"

lemma new_game_2: "new_game 2 True = Inr game2"
  by code_simp

lemma is_over_reachable:
  assumes "new_game n t = Inr g" and "play (current_state g) moves = Some s"
  shows "state_ok s" and "is_over g s = over_threshold s" and "st_length s = game_length g"
proof -
  have g: "game_length g = n" "st_length (current_state g) = n" "state_ok (current_state g)"
    using new_game_ok [OF assms(1)] by simp_all
  from play_ok [OF g(3) assms(2)] show "state_ok s" by simp
  have n: "st_length s = n" using play_ok [OF g(3) assms(2)] g(2) by simp
  then show "is_over g s = over_threshold s"
    using g(1) by (simp add: is_over_int over_threshold_def)
  show "st_length s = game_length g" using n g(1) by simp
qed

lemma length_filter_distinct:
  "distinct xs \<Longrightarrow> m \<in> set xs \<Longrightarrow> length (filter (\<lambda>c. c \<noteq> m) xs) + 1 = length xs"
proof (induction xs)
  case Nil
  then show ?case by simp
next
  case (Cons x xs)
  show ?case
  proof (cases "x = m")
    case True
    then have "m \<notin> set xs" using Cons.prems(1) by simp
    then have "filter (\<lambda>c. c \<noteq> m) xs = xs" by (auto simp: filter_id_conv)
    then show ?thesis using True by simp
  next
    case False
    then show ?thesis using Cons by simp
  qed
qed

section \<open>The heuristic and the two minimax searches\<close>

subsection \<open>What the absent base classes contribute\<close>

text \<open>Modelled from the spec: the constants \<^verbatim>\<open>WIN\<close>, \<^verbatim>\<open>LOSE\<close> and \<^verbatim>\<open>DRAW\<close> of
  the base class \<^verbatim>\<open>GameState\<close> (\<^verbatim>\<open>game_state.py\<close> is not among the sources). The
  spec gives \<^verbatim>\<open>LOSE\<close> as -1, \<^verbatim>\<open>WIN\<close> as +1 and \<^verbatim>\<open>DRAW\<close> as 0, and the doctest
  of \<^verbatim>\<open>rough_outcome\<close> prints these three values.\<close>

definition WIN :: int where "WIN = 1"
definition LOSE :: int where "LOSE = - 1"
definition DRAW :: int where "DRAW = 0"

text \<open>Modelled from the spec: \<^verbatim>\<open>GameState.get_current_player_name\<close>, also of the
  absent \<^verbatim>\<open>game_state.py\<close>. The players are named \<^verbatim>\<open>'p1'\<close> and \<^verbatim>\<open>'p2'\<close>
  (the precondition of \<^verbatim>\<open>is_winner\<close>), and the current player is the one whose turn
  flag is set.\<close>

definition get_current_player_name :: "stonehenge_state \<Rightarrow> string" where
  "get_current_player_name s = (if p1_turn s then ''p1'' else ''p2'')"

definition is_winner :: "stonehenge_game \<Rightarrow> string \<Rightarrow> bool" where
  "is_winner g player =
     (if is_over g (current_state g)
      then get_current_player_name (current_state g) \<noteq> player
      else False)"

subsection \<open>\<^verbatim>\<open>rough_outcome\<close>\<close>

text \<open>The loop \<^verbatim>\<open>for move in self.get_possible_moves()\<close> with the flag
  \<^verbatim>\<open>other_win\<close>; a \<^verbatim>\<open>return\<close> inside the loop ends it.\<close>

fun rough_loop :: "stonehenge_state \<Rightarrow> string list \<Rightarrow> bool \<Rightarrow> int" where
  "rough_loop s [] other_win = (if other_win then LOSE else DRAW)"
| "rough_loop s (move # moves) other_win =
     (let state = make_move s move in
      if real_of_int (p1_score state) \<ge> half_ley_lines (st_length s)
         \<or> real_of_int (p2_score state) \<ge> half_ley_lines (st_length s)
      then WIN
      else if list_all (\<lambda>x. real_of_int (p1_score (make_move state x)) < half_ley_lines (st_length s)
                            \<and> real_of_int (p2_score (make_move state x)) < half_ley_lines (st_length s))
                (get_possible_moves state)
      then rough_loop s moves False
      else rough_loop s moves other_win)"

definition rough_outcome :: "stonehenge_state \<Rightarrow> int" where
  "rough_outcome s =
     (if get_possible_moves s = [] then LOSE
      else rough_loop s (get_possible_moves s) True)"

subsection \<open>Python's list operations that can raise\<close>

text \<open>A list comprehension whose elements may raise: the first exception ends it.\<close>

fun collect :: "(py_error + 'a) list \<Rightarrow> py_error + 'a list" where
  "collect [] = Inr []"
| "collect (r # rs) =
     (case r of
        Inl e \<Rightarrow> Inl e
      | Inr v \<Rightarrow> (case collect rs of Inl e \<Rightarrow> Inl e | Inr vs \<Rightarrow> Inr (v # vs)))"

definition py_max :: "int list \<Rightarrow> py_error + int" where
  "py_max xs = (case xs of [] \<Rightarrow> Inl ValueError | x # rest \<Rightarrow> Inr (fold max rest x))"

fun py_index :: "int list \<Rightarrow> int \<Rightarrow> py_error + nat" where
  "py_index [] v = Inl ValueError"
| "py_index (x # xs) v =
     (if x = v then Inr 0
      else (case py_index xs v of Inl e \<Rightarrow> Inl e | Inr i \<Rightarrow> Inr (Suc i)))"

definition py_nth :: "'a list \<Rightarrow> nat \<Rightarrow> py_error + 'a" where
  "py_nth xs i = (if i < length xs then Inr (xs ! i) else Inl IndexError)"

text \<open>\<^verbatim>\<open>-1 * v\<close> on a value that may be an exception.\<close>

definition negated :: "py_error + int \<Rightarrow> py_error + int" where
  "negated r = (case r of Inl e \<Rightarrow> Inl e | Inr v \<Rightarrow> Inr (- 1 * v))"

subsection \<open>\<^verbatim>\<open>max_score\<close> and \<^verbatim>\<open>minimax_recursive\<close>\<close>

lemma move_shrinks_free_rows:
  assumes "x \<in> set (get_possible_moves state)"
  shows "length (free_rows (make_move state x)) < length (free_rows state)"
proof -
  have "x \<in> set (free_rows state)" using assms by (rule possible_move_free)
  then show ?thesis
    unfolding free_rows_make_move by (intro length_filter_less [of x]) simp_all
qed

text \<open>\<^verbatim>\<open>game.current_state\<close> is a working register: \<^verbatim>\<open>max_score\<close> stores its
  argument there on entry, and \<^verbatim>\<open>is_winner\<close> reads it only in the terminal branch,
  before any other call has written it; so the score is a function of the game's side
  length and the state, and the game is passed on with the register set.
  \<^verbatim>\<open>minimax_recursive\<close> and \<^verbatim>\<open>minimax_iterative\<close> put the old state back before
  they return a move.\<close>

function max_score :: "stonehenge_game \<Rightarrow> stonehenge_state \<Rightarrow> py_error + int" where
  "max_score game state =
     (let g = game\<lparr>current_state := state\<rparr> in
      if is_over g state then
        (if p1_turn state then
           (if is_winner g ''p1'' then Inr 1
            else if is_winner g ''p2'' then Inr (- 1)
            else Inr 0)
         else
           (if is_winner g ''p2'' then Inr 1
            else if is_winner g ''p1'' then Inr (- 1)
            else Inr 0))
      else
        (case collect (map (\<lambda>x. negated (max_score g (make_move state x)))
                           (get_possible_moves state)) of
           Inl e \<Rightarrow> Inl e
         | Inr scores \<Rightarrow> py_max scores))"
  by pat_completeness auto
termination
  by (relation "measure (\<lambda>(game, state). length (free_rows state))")
     (simp_all add: move_shrinks_free_rows)

declare max_score.simps [simp del]

definition minimax_recursive :: "stonehenge_game \<Rightarrow> py_error + string" where
  "minimax_recursive game =
     (let old_state = current_state game in
      case collect (map (\<lambda>x. negated (max_score game (make_move old_state x)))
                        (get_possible_moves old_state)) of
        Inl e \<Rightarrow> Inl e
      | Inr scores_possible_moves \<Rightarrow>
          (case py_max scores_possible_moves of
             Inl e \<Rightarrow> Inl e
           | Inr best \<Rightarrow>
               (case py_index scores_possible_moves best of
                  Inl e \<Rightarrow> Inl e
                | Inr index \<Rightarrow> py_nth (get_possible_moves old_state) index)))"

subsection \<open>\<^verbatim>\<open>minimax_iterative\<close>\<close>

text \<open>
  The \<^verbatim>\<open>Tree\<close> objects are mutable and shared between the stack and their parent's
  \<^verbatim>\<open>children\<close> list, so they live in a store: a list of nodes, a node's address
  being its index, and a new node being appended. \<^verbatim>\<open>children\<close> holds addresses;
  \<^verbatim>\<open>score\<close> is \<^verbatim>\<open>None\<close> until it is set. The field \<^verbatim>\<open>value\<close> is named
  \<^verbatim>\<open>tree_value\<close> here.
\<close>

record tree =
  tree_value :: stonehenge_state
  children :: "nat list"
  score :: "int option"

text \<open>The terminal branch of the loop body, lines 190 to 199, for the game with
  \<^verbatim>\<open>current_state\<close> already set to the node's state.\<close>

definition iter_terminal_score :: "stonehenge_game \<Rightarrow> int" where
  "iter_terminal_score g =
     (if \<not> (is_winner g ''p1'' \<or> is_winner g ''p2'') then 0
      else if p1_turn (current_state g) \<and> is_winner g ''p1'' then 1
      else if p1_turn (current_state g) \<and> is_winner g ''p2'' then - 1
      else if (\<not> p1_turn (current_state g)) \<and> is_winner g ''p2'' then 1
      else - 1)"

text \<open>\<^verbatim>\<open>-1 * x.score\<close>: a score that is still \<^verbatim>\<open>None\<close> raises.\<close>

definition negated_score :: "int option \<Rightarrow> py_error + int" where
  "negated_score sc = (case sc of None \<Rightarrow> Inl TypeError | Some v \<Rightarrow> Inr (- 1 * v))"

text \<open>
  One pass through the body of \<^verbatim>\<open>while not process.is_empty()\<close>, after
  \<^verbatim>\<open>process.remove()\<close> has returned the node at address \<^verbatim>\<open>t\<close> and left
  \<^verbatim>\<open>stack\<close>. The stack is the list \<^verbatim>\<open>_contents\<close> read from its end: its top is the
  head of the list here, so \<^verbatim>\<open>add\<close> is a cons.
\<close>

definition iter_step ::
  "stonehenge_game \<Rightarrow> nat \<Rightarrow> nat list \<Rightarrow> tree list \<Rightarrow> py_error + (nat list \<times> tree list)" where
  "iter_step game t stack h =
     (let g = game\<lparr>current_state := tree_value (h ! t)\<rparr> in
      if is_over g (current_state g) then
        Inr (stack, h[t := (h ! t)\<lparr>score := Some (iter_terminal_score g)\<rparr>])
      else if children (h ! t) = [] then
        (let moves = get_possible_moves (current_state g);
             new = map (\<lambda>move. \<lparr>tree_value = make_move (current_state g) move,
                                 children = [], score = None\<rparr>) moves;
             addrs = [length h..<length h + length moves];
             h' = (h @ new)[t := (h ! t)\<lparr>children := addrs\<rparr>]
         in Inr (rev addrs @ t # stack, h'))
      else
        (case collect (map (\<lambda>x. negated_score (score (h ! x))) (children (h ! t))) of
           Inl e \<Rightarrow> Inl e
         | Inr scores \<Rightarrow>
             (case py_max (scores @ [- 1]) of
                Inl e \<Rightarrow> Inl e
              | Inr best \<Rightarrow> Inr (stack, h[t := (h ! t)\<lparr>score := Some best\<rparr>]))))"

text \<open>The loop; it need not end (a node that is not terminal and has no moves is put
  back for ever), so not returning is the value \<^verbatim>\<open>None\<close>.\<close>

partial_function (option) iter_loop ::
  "stonehenge_game \<Rightarrow> nat list \<Rightarrow> tree list \<Rightarrow> (py_error + tree list) option" where
  "iter_loop game stack h =
     (case stack of
        [] \<Rightarrow> Some (Inr h)
      | t # rest \<Rightarrow>
          (case iter_step game t rest h of
             Inl e \<Rightarrow> Some (Inl e)
           | Inr (stack', h') \<Rightarrow> iter_loop game stack' h'))"

declare iter_loop.simps [code]

definition minimax_iterative :: "stonehenge_game \<Rightarrow> (py_error + string) option" where
  "minimax_iterative game =
     (let old_state = current_state game;
          state = \<lparr>tree_value = old_state, children = [], score = None\<rparr>
      in case iter_loop game [0] [state] of
           None \<Rightarrow> None
         | Some (Inl e) \<Rightarrow> Some (Inl e)
         | Some (Inr h) \<Rightarrow>
             Some (case collect (map (\<lambda>x. negated_score (score (h ! x))) (children (h ! 0))) of
                     Inl e \<Rightarrow> Inl e
                   | Inr scores_possible_moves \<Rightarrow>
                       (case py_max scores_possible_moves of
                          Inl e \<Rightarrow> Inl e
                        | Inr best \<Rightarrow>
                            (case py_index scores_possible_moves best of
                               Inl e \<Rightarrow> Inl e
                             | Inr index \<Rightarrow> py_nth (get_possible_moves old_state) index))))"

subsection \<open>The value of a state, in the words of the spec\<close>

text \<open>The terminal scoring rule: +1 when the side to move in the terminal state is the
  winner, -1 when it is the loser (the other side is the winner), 0 on a draw.\<close>

definition terminal_rule :: "stonehenge_game \<Rightarrow> stonehenge_state \<Rightarrow> int" where
  "terminal_rule g s =
     (if is_winner (g\<lparr>current_state := s\<rparr>) (if p1_turn s then ''p1'' else ''p2'') then 1
      else if is_winner (g\<lparr>current_state := s\<rparr>) (if p1_turn s then ''p2'' else ''p1'') then - 1
      else 0)"

text \<open>The spec's formula as it is written:
  \<^verbatim>\<open>value(state) = -1 * max over moves m of value(make_move(state, m))\<close>.\<close>

function negamax_spec :: "stonehenge_game \<Rightarrow> stonehenge_state \<Rightarrow> int" where
  "negamax_spec g s =
     (if is_over g s then terminal_rule g s
      else - 1 * Max (set (map (\<lambda>m. negamax_spec g (make_move s m)) (get_possible_moves s))))"
  by pat_completeness auto
termination
  by (relation "measure (\<lambda>(g, s). length (free_rows s))")
     (simp_all add: move_shrinks_free_rows)

text \<open>The negamax value: the maximum, over the moves, of the negated value of the
  successor.\<close>

function negamax :: "stonehenge_game \<Rightarrow> stonehenge_state \<Rightarrow> int" where
  "negamax g s =
     (if is_over g s then terminal_rule g s
      else Max (set (map (\<lambda>m. - 1 * negamax g (make_move s m)) (get_possible_moves s))))"
  by pat_completeness auto
termination
  by (relation "measure (\<lambda>(g, s). length (free_rows s))")
     (simp_all add: move_shrinks_free_rows)

declare negamax_spec.simps [simp del] negamax.simps [simp del]

definition state2_ABD :: stonehenge_state where
  "state2_ABD =
     \<lparr>p1_turn = False,
      cur_board = \<lparr>rows = [(''1'', [''1'', ''2'']), (''n'', [''C'', ''1'', ''E'']),
                           (''n'', [''F'', ''G''])],
                   left = [(''1'', [''1'', ''C'']), (''n'', [''2'', ''1'', ''F'']),
                           (''n'', [''E'', ''G''])],
                   right = [(''2'', [''2'', ''E'']), (''1'', [''1'', ''1'', ''G'']),
                            (''n'', [''C'', ''F''])]\<rparr>,
      p1_score = 3, p2_score = 1, st_length = 2\<rparr>"

lemma play_state2_ABD: "play (current_state game2) [''A'', ''B'', ''D''] = Some state2_ABD"
  by code_simp

definition state2_AEB :: stonehenge_state where
  "state2_AEB =
     \<lparr>p1_turn = False,
      cur_board = \<lparr>rows = [(''1'', [''1'', ''1'']), (''n'', [''C'', ''D'', ''2'']),
                           (''n'', [''F'', ''G''])],
                   left = [(''1'', [''1'', ''C'']), (''n'', [''1'', ''D'', ''F'']),
                           (''2'', [''2'', ''G''])],
                   right = [(''2'', [''1'', ''2'']), (''n'', [''1'', ''D'', ''G'']),
                            (''n'', [''C'', ''F''])]\<rparr>,
      p1_score = 2, p2_score = 2, st_length = 2\<rparr>"

lemma play_state2_AEB: "play (current_state game2) [''A'', ''E'', ''B''] = Some state2_AEB"
  by code_simp


lemma rough_loop_range: "rough_loop s moves other_win \<in> {- 1, 0, 1}"
proof (induction moves arbitrary: other_win)
  case Nil
  show ?case by (simp add: LOSE_def DRAW_def)
next
  case (Cons move moves)
  show ?case
    using Cons.IH [of False] Cons.IH [of other_win]
    by (simp only: rough_loop.simps Let_def WIN_def split: if_split) blast
qed

lemma is_winner_over:
  "is_over g (current_state g) \<Longrightarrow>
   is_winner g ''p1'' = (\<not> p1_turn (current_state g)) \<and>
   is_winner g ''p2'' = p1_turn (current_state g)"
  by (simp add: is_winner_def get_current_player_name_def)

lemma max_score_over:
  assumes "is_over game state"
  shows "max_score game state = Inr (- 1)"
proof -
  let ?g = "game\<lparr>current_state := state\<rparr>"
  have o: "is_over ?g state" using assms by (simp add: is_over_def)
  then have "is_over ?g (current_state ?g)" by simp
  from is_winner_over [OF this] show ?thesis
    using o by (subst max_score.simps) (simp add: Let_def)
qed

lemma iter_terminal_score_over:
  "is_over g (current_state g) \<Longrightarrow> iter_terminal_score g = - 1"
  using is_winner_over [of g] by (auto simp: iter_terminal_score_def)

subsection \<open>\<^verbatim>\<open>max_score\<close> computes the negamax value\<close>

definition good :: "stonehenge_game \<Rightarrow> stonehenge_state \<Rightarrow> bool" where
  "good g s = (state_ok s \<and> st_length s = game_length g)"

lemma good_step: "good g s \<Longrightarrow> m \<in> set (get_possible_moves s) \<Longrightarrow> good g (make_move s m)"
  by (simp add: good_def state_ok_make_move possible_move_free)

lemma good_moves: "good g s \<Longrightarrow> \<not> is_over g s \<Longrightarrow> get_possible_moves s \<noteq> []"
  using no_moves_iff_over [of s] by (simp add: good_def is_over_int over_threshold_def)

lemma good_reachable:
  "new_game n t = Inr g \<Longrightarrow> play (current_state g) moves = Some s \<Longrightarrow> good g s"
  using is_over_reachable [of n t g moves s] by (simp add: good_def)

lemma is_over_register [simp]: "is_over (g\<lparr>current_state := c\<rparr>) s = is_over g s"
  by (simp add: is_over_def)

lemma good_register [simp]: "good (g\<lparr>current_state := c\<rparr>) s = good g s"
  by (simp add: good_def)

lemma max_score_register: "max_score (game\<lparr>current_state := c\<rparr>) state = max_score game state"
  by (subst (1 2) max_score.simps) simp

lemma max_score_step:
  "\<not> is_over game state \<Longrightarrow>
   max_score game state =
     (case collect (map (\<lambda>x. negated (max_score game (make_move state x)))
                        (get_possible_moves state)) of
        Inl e \<Rightarrow> Inl e
      | Inr scores \<Rightarrow> py_max scores)"
  by (subst max_score.simps) (simp add: Let_def max_score_register)

lemma collect_map:
  "(\<And>x. x \<in> set xs \<Longrightarrow> f x = Inr (h x)) \<Longrightarrow> collect (map f xs) = Inr (map h xs)"
  by (induction xs) simp_all

lemma py_max_Max: "xs \<noteq> [] \<Longrightarrow> py_max xs = Inr (Max (set xs))"
proof (cases xs)
  case Nil
  then show "xs \<noteq> [] \<Longrightarrow> ?thesis" by simp
next
  case (Cons a list)
  show ?thesis unfolding Cons Max.set_eq_fold by (simp add: py_max_def)
qed

lemma terminal_rule_over: "is_over g s \<Longrightarrow> terminal_rule g s = - 1"
  using is_winner_over [of "g\<lparr>current_state := s\<rparr>"]
  by (simp add: terminal_rule_def)

lemma negamax_over: "is_over g s \<Longrightarrow> negamax g s = - 1"
  by (subst negamax.simps) (simp add: terminal_rule_over)

lemma negamax_step:
  "\<not> is_over g s \<Longrightarrow>
   negamax g s = Max (set (map (\<lambda>m. - 1 * negamax g (make_move s m)) (get_possible_moves s)))"
  by (subst negamax.simps) simp

lemma max_score_negamax:
  "good g s \<Longrightarrow> max_score g s = Inr (negamax g s) \<and> - 1 \<le> negamax g s \<and> negamax g s \<le> 1"
proof (induction g s rule: negamax.induct)
  case (1 g s)
  show ?case
  proof (cases "is_over g s")
    case True
    then show ?thesis by (simp add: max_score_over negamax_over)
  next
    case False
    let ?ms = "get_possible_moves s"
    let ?vs = "map (\<lambda>m. - 1 * negamax g (make_move s m)) ?ms"
    have ne: "?ms \<noteq> []" using "1.prems" False by (rule good_moves)
    have child: "max_score g (make_move s m) = Inr (negamax g (make_move s m)) \<and>
                 - 1 \<le> negamax g (make_move s m) \<and> negamax g (make_move s m) \<le> 1"
      if "m \<in> set ?ms" for m
      using "1.IH" [OF False that] good_step [OF "1.prems" that] by simp
    have "collect (map (\<lambda>x. negated (max_score g (make_move s x))) ?ms) = Inr ?vs"
      by (rule collect_map) (simp add: child negated_def)
    then have ms: "max_score g s = Inr (Max (set ?vs))"
      using False ne by (simp add: max_score_step py_max_Max)
    have eq: "negamax g s = Max (set ?vs)" using False by (rule negamax_step)
    have "\<forall>v \<in> set ?vs. - 1 \<le> v \<and> v \<le> 1" using child by auto
    moreover have "Max (set ?vs) \<in> set ?vs" using ne by (intro Max_in) simp_all
    ultimately have "- 1 \<le> Max (set ?vs) \<and> Max (set ?vs) \<le> 1" by blast
    then show ?thesis using ms eq by simp
  qed
qed

lemma py_index_first:
  "v \<in> set xs \<Longrightarrow> \<exists>i. py_index xs v = Inr i \<and> i < length xs \<and> xs ! i = v"
proof (induction xs)
  case Nil
  then show ?case by simp
next
  case (Cons x xs)
  show ?case
  proof (cases "x = v")
    case True
    then show ?thesis by simp
  next
    case False
    then have "v \<in> set xs" using Cons.prems by simp
    then obtain i where "py_index xs v = Inr i" "i < length xs" "xs ! i = v"
      using Cons.IH by blast
    then show ?thesis using False by simp
  qed
qed

text \<open>The last lines of both searches: the first move whose negated score is the
  greatest.\<close>

definition choose_move :: "int list \<Rightarrow> string list \<Rightarrow> py_error + string" where
  "choose_move scores_possible_moves moves =
     (case py_max scores_possible_moves of
        Inl e \<Rightarrow> Inl e
      | Inr best \<Rightarrow>
          (case py_index scores_possible_moves best of
             Inl e \<Rightarrow> Inl e
           | Inr index \<Rightarrow> py_nth moves index))"

lemma choose_move_best:
  assumes "moves \<noteq> []"
  shows "\<exists>i < length moves. choose_move (map f moves) moves = Inr (moves ! i) \<and>
           (\<forall>m' \<in> set moves. f m' \<le> f (moves ! i))"
proof -
  let ?xs = "map f moves"
  have ne: "?xs \<noteq> []" using assms by simp
  have mx: "py_max ?xs = Inr (Max (set ?xs))" using ne by (rule py_max_Max)
  have "Max (set ?xs) \<in> set ?xs" using ne by (intro Max_in) simp_all
  then obtain i where i: "py_index ?xs (Max (set ?xs)) = Inr i" "i < length ?xs"
    "?xs ! i = Max (set ?xs)"
    using py_index_first by blast
  have "f m' \<le> f (moves ! i)" if "m' \<in> set moves" for m'
  proof -
    have "f m' \<le> Max (set ?xs)" using that by (intro Max_ge) simp_all
    then show ?thesis using i by simp
  qed
  then show ?thesis using mx i by (auto simp: choose_move_def py_nth_def)
qed

lemma minimax_recursive_eq:
  assumes "good g s" and "\<not> is_over g s"
  shows "minimax_recursive (g\<lparr>current_state := s\<rparr>) =
         choose_move (map (\<lambda>m. - 1 * negamax g (make_move s m)) (get_possible_moves s))
           (get_possible_moves s)"
proof -
  have "collect (map (\<lambda>x. negated (max_score (g\<lparr>current_state := s\<rparr>) (make_move s x)))
          (get_possible_moves s)) =
        Inr (map (\<lambda>m. - 1 * negamax g (make_move s m)) (get_possible_moves s))"
    by (rule collect_map)
       (simp add: max_score_register max_score_negamax good_step [OF assms(1)] negated_def)
  then show ?thesis by (simp add: minimax_recursive_def choose_move_def)
qed



subsection \<open>The iterative search settles every node with its negamax value\<close>

lemma iter_loop_Nil: "iter_loop g [] h = Some (Inr h)"
  by (subst iter_loop.simps) simp

lemma iter_loop_step:
  "iter_step g t rest h = Inr (stack', h') \<Longrightarrow> iter_loop g (t # rest) h = iter_loop g stack' h'"
  by (subst iter_loop.simps) simp

lemma step_terminal:
  assumes "is_over g (tree_value (h ! t))"
  shows "iter_step g t stack h = Inr (stack, h[t := (h ! t)\<lparr>score := Some (- 1)\<rparr>])"
proof -
  let ?g = "g\<lparr>current_state := tree_value (h ! t)\<rparr>"
  have "is_over ?g (current_state ?g)" using assms by simp
  then show ?thesis using iter_terminal_score_over [of ?g]
    by (simp add: iter_step_def Let_def)
qed

lemma step_expand:
  assumes "\<not> is_over g (tree_value (h ! t))" and "children (h ! t) = []"
  shows "iter_step g t stack h =
         Inr (rev [length h..<length h + length (get_possible_moves (tree_value (h ! t)))] @ t # stack,
              (h @ map (\<lambda>move. \<lparr>tree_value = make_move (tree_value (h ! t)) move,
                                  children = [], score = None\<rparr>)
                       (get_possible_moves (tree_value (h ! t))))
              [t := (h ! t)\<lparr>children := [length h..<length h + length (get_possible_moves (tree_value (h ! t)))]\<rparr>])"
  using assms by (simp add: iter_step_def Let_def)

lemma Max_insert_low:
  assumes "xs \<noteq> []" and "\<forall>x \<in> set xs. (l::int) \<le> x"
  shows "Max (set (xs @ [l])) = Max (set xs)"
proof -
  have "Max (set xs) \<in> set xs" using assms(1) by (intro Max_in) simp_all
  then have "l \<le> Max (set xs)" using assms(2) by blast
  then show ?thesis using assms(1) by (simp add: max_def)
qed

lemma step_settle:
  assumes "\<not> is_over g (tree_value (h ! t))" and "children (h ! t) \<noteq> []"
    and "\<And>c. c \<in> set (children (h ! t)) \<Longrightarrow> score (h ! c) = Some (f c)"
  shows "iter_step g t stack h =
         Inr (stack, h[t := (h ! t)\<lparr>score :=
                Some (Max (set (map (\<lambda>c. - 1 * f c) (children (h ! t)) @ [- 1])))\<rparr>])"
proof -
  have "collect (map (\<lambda>x. negated_score (score (h ! x))) (children (h ! t))) =
        Inr (map (\<lambda>c. - 1 * f c) (children (h ! t)))"
    by (rule collect_map) (simp add: assms(3) negated_score_def)
  moreover have "py_max (map (\<lambda>c. - 1 * f c) (children (h ! t)) @ [- 1]) =
        Inr (Max (set (map (\<lambda>c. - 1 * f c) (children (h ! t)) @ [- 1])))"
    by (rule py_max_Max) simp
  ultimately show ?thesis using assms(1,2) by (simp add: iter_step_def Let_def)
qed

definition node_settles :: "stonehenge_game \<Rightarrow> stonehenge_state \<Rightarrow> int \<Rightarrow> bool" where
  "node_settles g s v =
     (\<forall>t h stack. t < length h \<longrightarrow> tree_value (h ! t) = s \<longrightarrow> children (h ! t) = [] \<longrightarrow>
        (\<exists>h'. iter_loop g (t # stack) h = iter_loop g stack h' \<and> length h \<le> length h' \<and>
              (\<forall>a < length h. a \<noteq> t \<longrightarrow> h' ! a = h ! a) \<and>
              tree_value (h' ! t) = s \<and> score (h' ! t) = Some v))"

lemma node_settlesD:
  assumes "node_settles g s v" and "t < length h" and "tree_value (h ! t) = s"
    and "children (h ! t) = []"
  obtains h' where "iter_loop g (t # stack) h = iter_loop g stack h'" and "length h \<le> length h'"
    and "\<And>a. a < length h \<Longrightarrow> a \<noteq> t \<Longrightarrow> h' ! a = h ! a"
    and "tree_value (h' ! t) = s" and "score (h' ! t) = Some v"
  using assms unfolding node_settles_def by blast

lemma children_settle:
  assumes "\<forall>c \<in> set cs. c < length h \<and> children (h ! c) = [] \<and>
             node_settles g (tree_value (h ! c)) (f (tree_value (h ! c)))"
    and "distinct cs"
  shows "\<exists>h'. iter_loop g (rev cs @ stack) h = iter_loop g stack h' \<and> length h \<le> length h' \<and>
              (\<forall>a < length h. a \<notin> set cs \<longrightarrow> h' ! a = h ! a) \<and>
              (\<forall>c \<in> set cs. tree_value (h' ! c) = tree_value (h ! c) \<and>
                              score (h' ! c) = Some (f (tree_value (h ! c))))"
  using assms
proof (induction cs arbitrary: h rule: rev_induct)
  case Nil
  show ?case by (intro exI [of _ h]) simp
next
  case (snoc c cs)
  have c: "c < length h" "children (h ! c) = []"
    "node_settles g (tree_value (h ! c)) (f (tree_value (h ! c)))"
    using snoc.prems(1) by simp_all
  have cn: "c \<notin> set cs" and dist: "distinct cs" using snoc.prems(2) by simp_all
  obtain h1 where h1: "iter_loop g (c # rev cs @ stack) h = iter_loop g (rev cs @ stack) h1"
    "length h \<le> length h1"
    "\<And>a. a < length h \<Longrightarrow> a \<noteq> c \<Longrightarrow> h1 ! a = h ! a"
    "tree_value (h1 ! c) = tree_value (h ! c)"
    "score (h1 ! c) = Some (f (tree_value (h ! c)))"
    using node_settlesD [OF c(3) c(1) refl c(2), of "rev cs @ stack"] by metis
  have same: "h1 ! c' = h ! c'" if "c' \<in> set cs" for c'
    using that snoc.prems(1) cn h1(3) [of c'] by auto
  have "\<forall>c' \<in> set cs. c' < length h1 \<and> children (h1 ! c') = [] \<and>
          node_settles g (tree_value (h1 ! c')) (f (tree_value (h1 ! c')))"
    using snoc.prems(1) h1(2) same by auto
  from snoc.IH [OF this dist]
  obtain h2 where h2: "iter_loop g (rev cs @ stack) h1 = iter_loop g stack h2"
    "length h1 \<le> length h2"
    "\<forall>a < length h1. a \<notin> set cs \<longrightarrow> h2 ! a = h1 ! a"
    "\<forall>c' \<in> set cs. tree_value (h2 ! c') = tree_value (h1 ! c') \<and>
                     score (h2 ! c') = Some (f (tree_value (h1 ! c')))"
    by blast
  have c2: "h2 ! c = h1 ! c" using h2(3) c(1) h1(2) cn by simp
  show ?case
  proof (intro exI [of _ h2] conjI ballI allI impI)
    show "iter_loop g (rev (cs @ [c]) @ stack) h = iter_loop g stack h2"
      using h1(1) h2(1) by simp
    show "length h \<le> length h2" using h1(2) h2(2) by simp
  next
    fix a assume "a < length h" "a \<notin> set (cs @ [c])"
    then show "h2 ! a = h ! a" using h1(2,3) h2(3) by simp
  next
    fix c' assume c': "c' \<in> set (cs @ [c])"
    show "tree_value (h2 ! c') = tree_value (h ! c')"
      using c' h2(4) same c2 h1(4) by auto
    show "score (h2 ! c') = Some (f (tree_value (h ! c')))"
      using c' h2(4) same c2 h1(5) by auto
  qed
qed

lemma expand_settles:
  assumes no: "\<not> is_over g s" and ne: "get_possible_moves s \<noteq> []"
    and kids: "\<forall>m \<in> set (get_possible_moves s). node_settles g (make_move s m) (f (make_move s m))"
    and t: "t < length h" "tree_value (h ! t) = s" "children (h ! t) = []"
  shows "\<exists>h'. iter_loop g (t # stack) h = iter_loop g stack h' \<and> length h \<le> length h' \<and>
              (\<forall>a < length h. a \<noteq> t \<longrightarrow> h' ! a = h ! a) \<and>
              tree_value (h' ! t) = s \<and>
              score (h' ! t) =
                Some (Max (set (map (\<lambda>m. - 1 * f (make_move s m)) (get_possible_moves s) @ [- 1]))) \<and>
              map (\<lambda>c. score (h' ! c)) (children (h' ! t)) =
                map (\<lambda>m. Some (f (make_move s m))) (get_possible_moves s)"
proof -
  define moves where "moves = get_possible_moves s"
  define addrs where "addrs = [length h..<length h + length moves]"
  define new where "new = map (\<lambda>move. \<lparr>tree_value = make_move s move, children = [], score = None\<rparr>) moves"
  define h1 where "h1 = (h @ new)[t := (h ! t)\<lparr>children := addrs\<rparr>]"
  have step1: "iter_loop g (t # stack) h = iter_loop g (rev addrs @ t # stack) h1"
    using step_expand [of g h t stack] no t(2,3)
    by (intro iter_loop_step) (simp add: h1_def new_def addrs_def moves_def)
  have len1: "length h1 = length h + length moves" by (simp add: h1_def new_def)
  have t1: "h1 ! t = (h ! t)\<lparr>children := addrs\<rparr>" using t(1) by (simp add: h1_def)
  have old1: "h1 ! a = h ! a" if "a < length h" "a \<noteq> t" for a
    using that by (simp add: h1_def nth_append)
  have new1: "h1 ! (length h + j) = \<lparr>tree_value = make_move s (moves ! j), children = [], score = None\<rparr>"
    if "j < length moves" for j
    using that t(1) by (simp add: h1_def new_def nth_append)
  have addrs_nth: "addrs ! j = length h + j" if "j < length moves" for j
    using that by (simp add: addrs_def)
  have addrs_len: "length addrs = length moves" by (simp add: addrs_def)
  have addrs_set: "c \<in> set addrs \<longleftrightarrow> (\<exists>j < length moves. c = length h + j)" for c
    by (auto simp: addrs_def intro: exI [of _ "c - length h"])
  have tn: "t \<notin> set addrs" using t(1) by (simp add: addrs_def)
  have vals: "map (\<lambda>c. tree_value (h1 ! c)) addrs = map (make_move s) moves"
    by (rule nth_equalityI) (simp_all add: addrs_len addrs_nth new1)
  have pre: "\<forall>c \<in> set addrs. c < length h1 \<and> children (h1 ! c) = [] \<and>
               node_settles g (tree_value (h1 ! c)) (f (tree_value (h1 ! c)))"
  proof
    fix c assume "c \<in> set addrs"
    then obtain j where j: "j < length moves" "c = length h + j" using addrs_set by blast
    have "moves ! j \<in> set (get_possible_moves s)" using j(1) by (simp add: moves_def)
    then have "node_settles g (make_move s (moves ! j)) (f (make_move s (moves ! j)))"
      using kids by blast
    then show "c < length h1 \<and> children (h1 ! c) = [] \<and>
               node_settles g (tree_value (h1 ! c)) (f (tree_value (h1 ! c)))"
      using j len1 by (simp add: new1)
  qed
  have "distinct addrs" by (simp add: addrs_def)
  from children_settle [OF pre this, of "t # stack"]
  obtain h2 where h2: "iter_loop g (rev addrs @ t # stack) h1 = iter_loop g (t # stack) h2"
    "length h1 \<le> length h2"
    "\<forall>a < length h1. a \<notin> set addrs \<longrightarrow> h2 ! a = h1 ! a"
    "\<forall>c \<in> set addrs. tree_value (h2 ! c) = tree_value (h1 ! c) \<and>
                       score (h2 ! c) = Some (f (tree_value (h1 ! c)))"
    by blast
  have t2: "h2 ! t = (h ! t)\<lparr>children := addrs\<rparr>"
    using h2(3) t(1) len1 tn t1 by simp
  have ane: "addrs \<noteq> []" using ne addrs_len by (auto simp: moves_def)
  define best where "best = Max (set (map (\<lambda>c. - 1 * f (tree_value (h1 ! c))) addrs @ [- 1]))"
  define h3 where "h3 = h2[t := (h2 ! t)\<lparr>score := Some best\<rparr>]"
  have "iter_step g t stack h2 = Inr (stack, h3)"
    unfolding h3_def best_def
    using step_settle [of g h2 t "\<lambda>c. f (tree_value (h1 ! c))" stack] no t(2) ane h2(4) t2
    by simp
  then have step3: "iter_loop g (t # stack) h2 = iter_loop g stack h3" by (rule iter_loop_step)
  have best_eq: "best = Max (set (map (\<lambda>m. - 1 * f (make_move s m)) (get_possible_moves s) @ [- 1]))"
  proof -
    have "map (\<lambda>c. - 1 * f (tree_value (h1 ! c))) addrs =
          map (\<lambda>v. - 1 * f v) (map (\<lambda>c. tree_value (h1 ! c)) addrs)"
      by simp
    also have "\<dots> = map (\<lambda>m. - 1 * f (make_move s m)) moves" unfolding vals by simp
    finally show ?thesis by (simp add: best_def moves_def)
  qed
  have t_lt2: "t < length h2" using t(1) len1 h2(2) by simp
  have t3: "h3 ! t = (h ! t)\<lparr>children := addrs, score := Some best\<rparr>"
    using t_lt2 t2 by (simp add: h3_def)
  have kids3: "map (\<lambda>c. score (h3 ! c)) addrs = map (\<lambda>m. Some (f (make_move s m))) moves"
  proof (rule nth_equalityI)
    show "length (map (\<lambda>c. score (h3 ! c)) addrs) = length (map (\<lambda>m. Some (f (make_move s m))) moves)"
      by (simp add: addrs_len)
  next
    fix j assume "j < length (map (\<lambda>c. score (h3 ! c)) addrs)"
    then have j: "j < length moves" by (simp add: addrs_len)
    have in_addrs: "length h + j \<in> set addrs" using j addrs_set by blast
    have neq: "length h + j \<noteq> t" using t(1) by simp
    have "score (h3 ! (length h + j)) = score (h2 ! (length h + j))"
      using neq by (simp add: h3_def)
    also have "\<dots> = Some (f (tree_value (h1 ! (length h + j))))"
      using h2(4) in_addrs by blast
    also have "\<dots> = Some (f (make_move s (moves ! j)))" using j by (simp add: new1)
    finally show "map (\<lambda>c. score (h3 ! c)) addrs ! j = map (\<lambda>m. Some (f (make_move s m))) moves ! j"
      using j by (simp add: addrs_len addrs_nth)
  qed
  show ?thesis
  proof (intro exI [of _ h3] conjI allI impI)
    show "iter_loop g (t # stack) h = iter_loop g stack h3"
      using step1 h2(1) step3 by simp
    show "length h \<le> length h3" using len1 h2(2) by (simp add: h3_def)
    show "tree_value (h3 ! t) = s" using t3 t(2) by simp
    show "score (h3 ! t) =
          Some (Max (set (map (\<lambda>m. - 1 * f (make_move s m)) (get_possible_moves s) @ [- 1])))"
      using t3 best_eq by simp
    show "map (\<lambda>c. score (h3 ! c)) (children (h3 ! t)) =
          map (\<lambda>m. Some (f (make_move s m))) (get_possible_moves s)"
      using t3 kids3 by (simp add: moves_def)
  next
    fix a assume a: "a < length h" "a \<noteq> t"
    have "a \<notin> set addrs" using a(1) by (simp add: addrs_def)
    then have "h2 ! a = h1 ! a" using h2(3) a(1) len1 by simp
    then show "h3 ! a = h ! a" using a old1 by (simp add: h3_def)
  qed
qed

lemma terminal_settles:
  assumes "is_over g s"
  shows "node_settles g s (- 1)"
  unfolding node_settles_def
proof (intro allI impI)
  fix t and h :: "tree list" and stack
  assume t: "t < length h" "tree_value (h ! t) = s" "children (h ! t) = []"
  let ?h = "h[t := (h ! t)\<lparr>score := Some (- 1)\<rparr>]"
  have "iter_step g t stack h = Inr (stack, ?h)"
    using step_terminal [of g h t stack] assms t(2) by simp
  then have "iter_loop g (t # stack) h = iter_loop g stack ?h" by (rule iter_loop_step)
  then show "\<exists>h'. iter_loop g (t # stack) h = iter_loop g stack h' \<and> length h \<le> length h' \<and>
              (\<forall>a < length h. a \<noteq> t \<longrightarrow> h' ! a = h ! a) \<and>
              tree_value (h' ! t) = s \<and> score (h' ! t) = Some (- 1)"
    using t by (intro exI [of _ ?h]) simp
qed

lemma node_settles_good: "good g s \<Longrightarrow> node_settles g s (negamax g s)"
proof (induction g s rule: negamax.induct)
  case (1 g s)
  show ?case
  proof (cases "is_over g s")
    case True
    then show ?thesis by (simp add: terminal_settles negamax_over)
  next
    case False
    let ?ms = "get_possible_moves s"
    let ?vs = "map (\<lambda>m. - 1 * negamax g (make_move s m)) ?ms"
    have ne: "?ms \<noteq> []" using "1.prems" False by (rule good_moves)
    have kids: "\<forall>m \<in> set ?ms. node_settles g (make_move s m) (negamax g (make_move s m))"
      using "1.IH" [OF False] good_step [OF "1.prems"] by blast
    have low: "\<forall>v \<in> set ?vs. - 1 \<le> v"
      using max_score_negamax [OF good_step [OF "1.prems"]] by auto
    have "Max (set (?vs @ [- 1])) = Max (set ?vs)"
      using ne low by (intro Max_insert_low) simp_all
    then have v: "Max (set (?vs @ [- 1])) = negamax g s"
      using False by (simp add: negamax_step)
    show ?thesis unfolding node_settles_def
    proof (intro allI impI)
      fix t and h :: "tree list" and stack
      assume t: "t < length h" "tree_value (h ! t) = s" "children (h ! t) = []"
      from expand_settles [OF False ne kids t, of stack]
      show "\<exists>h'. iter_loop g (t # stack) h = iter_loop g stack h' \<and> length h \<le> length h' \<and>
              (\<forall>a < length h. a \<noteq> t \<longrightarrow> h' ! a = h ! a) \<and>
              tree_value (h' ! t) = s \<and> score (h' ! t) = Some (negamax g s)"
        unfolding v by blast
    qed
  qed
qed

lemma minimax_iterative_eq:
  assumes good: "good g s" and no: "\<not> is_over g s"
  shows "minimax_iterative (g\<lparr>current_state := s\<rparr>) =
         Some (choose_move (map (\<lambda>m. - 1 * negamax g (make_move s m)) (get_possible_moves s))
                 (get_possible_moves s))"
proof -
  let ?g = "g\<lparr>current_state := s\<rparr>"
  let ?ms = "get_possible_moves s"
  let ?h = "[\<lparr>tree_value = s, children = [], score = None\<rparr>]"
  have good': "good ?g s" using good by simp
  have no': "\<not> is_over ?g s" using no by simp
  have ne: "?ms \<noteq> []" using good no by (rule good_moves)
  have same: "negamax ?g (make_move s m) = negamax g (make_move s m)" if "m \<in> set ?ms" for m
  proof -
    have "good g (make_move s m)" using good that by (rule good_step)
    then have "max_score g (make_move s m) = Inr (negamax g (make_move s m))"
      "max_score ?g (make_move s m) = Inr (negamax ?g (make_move s m))"
      using max_score_negamax [of g "make_move s m"] max_score_negamax [of ?g "make_move s m"]
      by simp_all
    then show ?thesis by (simp add: max_score_register)
  qed
  have kids: "\<forall>m \<in> set ?ms. node_settles ?g (make_move s m) (negamax ?g (make_move s m))"
    using node_settles_good good_step [OF good'] by blast
  have t: "0 < length ?h" "tree_value (?h ! 0) = s" "children (?h ! 0) = []" by simp_all
  from expand_settles [OF no' ne kids t, of "[]"]
  obtain h' where h': "iter_loop ?g [0] ?h = iter_loop ?g [] h'"
    "map (\<lambda>c. score (h' ! c)) (children (h' ! 0)) =
       map (\<lambda>m. Some (negamax ?g (make_move s m))) ?ms"
    by blast
  have loop: "iter_loop ?g [0] ?h = Some (Inr h')" using h'(1) by (simp add: iter_loop_Nil)
  have "map (\<lambda>x. negated_score (score (h' ! x))) (children (h' ! 0)) =
        map negated_score (map (\<lambda>c. score (h' ! c)) (children (h' ! 0)))"
    by simp
  also have "\<dots> = map (\<lambda>m. Inr (- 1 * negamax ?g (make_move s m))) ?ms"
    unfolding h'(2) by (simp add: negated_score_def)
  also have "\<dots> = map (\<lambda>m. Inr (- 1 * negamax g (make_move s m))) ?ms"
    using same by simp
  finally have "collect (map (\<lambda>x. negated_score (score (h' ! x))) (children (h' ! 0))) =
     Inr (map (\<lambda>m. - 1 * negamax g (make_move s m)) ?ms)"
    by (simp add: collect_map)
  then show ?thesis using loop by (simp add: minimax_iterative_def choose_move_def)
qed

section \<open>\<^verbatim>\<open>make_move\<close> on a store of mutable objects\<close>

text \<open>
  For what \<^verbatim>\<open>make_move\<close> shares and what it copies, the two kinds of list that
  \<^verbatim>\<open>move_to_board\<close> writes into live in a store: the ley-line lists \<^verbatim>\<open>[tag, cells]\<close>,
  holding the tag and the address of the cell list, and the cell lists. An address is
  an index into the store, and a new object is appended. The dictionaries are never
  written after \<^verbatim>\<open>__init__\<close>, and neither are the fields of a state object, so a board
  is the three lists of its lines' addresses and a state is a value holding such a board.
\<close>

record store =
  line_objs :: "(string \<times> nat) list"
  cell_objs :: "string list list"

record board_ref =
  rows_ref :: "nat list"
  left_ref :: "nat list"
  right_ref :: "nat list"

record state_ref =
  ref_p1_turn :: bool
  ref_board :: board_ref
  ref_p1_score :: int
  ref_p2_score :: int
  ref_length :: int

text \<open>\<^verbatim>\<open>copy.deepcopy\<close>, with its memo: an object met a second time is not copied
  again. The memo is a pair of maps, for the ley-line lists and for the cell lists.\<close>

definition copy_cells :: "store \<Rightarrow> (nat \<rightharpoonup> nat) \<Rightarrow> nat \<Rightarrow> store \<times> (nat \<rightharpoonup> nat) \<times> nat" where
  "copy_cells st mc c =
     (case mc c of
        Some c' \<Rightarrow> (st, mc, c')
      | None \<Rightarrow>
          (st\<lparr>cell_objs := cell_objs st @ [cell_objs st ! c]\<rparr>,
           mc(c \<mapsto> length (cell_objs st)), length (cell_objs st)))"

definition copy_line ::
  "store \<Rightarrow> (nat \<rightharpoonup> nat) \<times> (nat \<rightharpoonup> nat) \<Rightarrow> nat \<Rightarrow> store \<times> ((nat \<rightharpoonup> nat) \<times> (nat \<rightharpoonup> nat)) \<times> nat" where
  "copy_line st memo a =
     (case fst memo a of
        Some a' \<Rightarrow> (st, memo, a')
      | None \<Rightarrow>
          (case copy_cells st (snd memo) (snd (line_objs st ! a)) of (st1, mc, c') \<Rightarrow>
             (st1\<lparr>line_objs := line_objs st1 @ [(fst (line_objs st ! a), c')]\<rparr>,
              ((fst memo)(a \<mapsto> length (line_objs st1)), mc), length (line_objs st1))))"

fun copy_lines ::
  "store \<Rightarrow> (nat \<rightharpoonup> nat) \<times> (nat \<rightharpoonup> nat) \<Rightarrow> nat list \<Rightarrow> store \<times> ((nat \<rightharpoonup> nat) \<times> (nat \<rightharpoonup> nat)) \<times> nat list" where
  "copy_lines st memo [] = (st, memo, [])"
| "copy_lines st memo (a # as) =
     (case copy_line st memo a of (st1, memo1, a') \<Rightarrow>
        (case copy_lines st1 memo1 as of (st2, memo2, as') \<Rightarrow> (st2, memo2, a' # as')))"

definition deepcopy :: "store \<Rightarrow> board_ref \<Rightarrow> store \<times> board_ref" where
  "deepcopy st b =
     (case copy_lines st (Map.empty, Map.empty) (rows_ref b) of (st1, memo1, rs) \<Rightarrow>
      case copy_lines st1 memo1 (left_ref b) of (st2, memo2, ls) \<Rightarrow>
      case copy_lines st2 memo2 (right_ref b) of (st3, memo3, rs') \<Rightarrow>
        (st3, \<lparr>rows_ref = rs, left_ref = ls, right_ref = rs'\<rparr>))"

text \<open>\<^verbatim>\<open>move_to_board\<close> reads and writes the one ley-line list it is given and that
  list's cell list, so its effect on the store is to replace the contents of the two by
  what \<^verbatim>\<open>move_to_board\<close> computes from them.\<close>

definition read_line :: "store \<Rightarrow> nat \<Rightarrow> ley_line" where
  "read_line st a = (fst (line_objs st ! a), cell_objs st ! snd (line_objs st ! a))"

definition move_to_board_ref ::
  "store \<Rightarrow> int \<times> int \<Rightarrow> nat \<Rightarrow> string \<Rightarrow> string \<Rightarrow> store \<times> (int \<times> int)" where
  "move_to_board_ref st player_scores a move cur_player =
     (case move_to_board player_scores (read_line st a) move cur_player of
        (scores, (tag, cells)) \<Rightarrow>
          (st\<lparr>cell_objs := (cell_objs st)[snd (line_objs st ! a) := cells],
              line_objs := (line_objs st)[a := (tag, snd (line_objs st ! a))]\<rparr>,
           scores))"

fun move_lines_ref ::
  "store \<Rightarrow> int \<times> int \<Rightarrow> nat list \<Rightarrow> string \<Rightarrow> string \<Rightarrow> store \<times> (int \<times> int)" where
  "move_lines_ref st scores [] move cur_player = (st, scores)"
| "move_lines_ref st scores (a # as) move cur_player =
     (case move_to_board_ref st scores a move cur_player of (st1, scores1) \<Rightarrow>
        move_lines_ref st1 scores1 as move cur_player)"

definition make_move_ref :: "store \<Rightarrow> state_ref \<Rightarrow> string \<Rightarrow> store \<times> state_ref" where
  "make_move_ref st s move =
     (case deepcopy st (ref_board s) of (st1, board) \<Rightarrow>
      let cur_player = (if \<not> ref_p1_turn s then ''2'' else ''1'');
          scores = (ref_p1_score s, ref_p2_score s)
      in case move_lines_ref st1 scores
                (rows_ref board @ left_ref board @ right_ref board) move cur_player of
           (st2, scores') \<Rightarrow>
             (st2, \<lparr>ref_p1_turn = (cur_player = ''2''), ref_board = board,
                    ref_p1_score = fst scores', ref_p2_score = snd scores',
                    ref_length = ref_length s\<rparr>))"

text \<open>What a state reads as: the board with every address replaced by the object's
  contents.\<close>

definition read_board :: "store \<Rightarrow> board_ref \<Rightarrow> board" where
  "read_board st b =
     \<lparr>rows = map (read_line st) (rows_ref b),
      left = map (read_line st) (left_ref b),
      right = map (read_line st) (right_ref b)\<rparr>"

definition read_state :: "store \<Rightarrow> state_ref \<Rightarrow> stonehenge_state" where
  "read_state st s =
     \<lparr>p1_turn = ref_p1_turn s, cur_board = read_board st (ref_board s),
      p1_score = ref_p1_score s, p2_score = ref_p2_score s, st_length = ref_length s\<rparr>"

text \<open>The fresh side-length-1 game in a store: six ley-line lists, six cell lists.\<close>

definition store1 :: store where
  "store1 = \<lparr>line_objs = [(''n'', 0), (''n'', 1), (''n'', 2), (''n'', 3), (''n'', 4), (''n'', 5)],
             cell_objs = [[''A'', ''B''], [''C''], [''A''], [''B'', ''C''], [''B''], [''A'', ''C'']]\<rparr>"

definition state1_ref :: state_ref where
  "state1_ref = \<lparr>ref_p1_turn = True,
                 ref_board = \<lparr>rows_ref = [0, 1], left_ref = [2, 3], right_ref = [4, 5]\<rparr>,
                 ref_p1_score = 0, ref_p2_score = 0, ref_length = 1\<rparr>"

lemma read_state1: "read_state store1 state1_ref = state1"
  by code_simp


subsection \<open>Nothing that existed before a call is written by it\<close>

definition keeps :: "store \<Rightarrow> store \<Rightarrow> bool" where
  "keeps st0 st =
     (take (length (line_objs st0)) (line_objs st) = line_objs st0 \<and>
      take (length (cell_objs st0)) (cell_objs st) = cell_objs st0)"

definition above :: "store \<Rightarrow> store \<Rightarrow> bool" where
  "above st0 st =
     (\<forall>a. length (line_objs st0) \<le> a \<and> a < length (line_objs st) \<longrightarrow>
          length (cell_objs st0) \<le> snd (line_objs st ! a) \<and>
          snd (line_objs st ! a) < length (cell_objs st))"

definition memo_ok :: "store \<Rightarrow> store \<Rightarrow> (nat \<rightharpoonup> nat) \<times> (nat \<rightharpoonup> nat) \<Rightarrow> bool" where
  "memo_ok st0 st memo =
     ((\<forall>a a'. fst memo a = Some a' \<longrightarrow> length (line_objs st0) \<le> a' \<and> a' < length (line_objs st)) \<and>
      (\<forall>c c'. snd memo c = Some c' \<longrightarrow> length (cell_objs st0) \<le> c' \<and> c' < length (cell_objs st)))"

definition copying :: "store \<Rightarrow> store \<Rightarrow> (nat \<rightharpoonup> nat) \<times> (nat \<rightharpoonup> nat) \<Rightarrow> bool" where
  "copying st0 st memo = (keeps st0 st \<and> above st0 st \<and> memo_ok st0 st memo)"

lemma keeps_length:
  "keeps st0 st \<Longrightarrow> length (line_objs st0) \<le> length (line_objs st) \<and>
                    length (cell_objs st0) \<le> length (cell_objs st)"
  unfolding keeps_def by (metis length_take min.cobounded1)

lemma keeps_refl: "keeps st st"
  by (simp add: keeps_def)

lemma keeps_nth:
  assumes "keeps st0 st"
  shows "a < length (line_objs st0) \<Longrightarrow> line_objs st ! a = line_objs st0 ! a"
    and "c < length (cell_objs st0) \<Longrightarrow> cell_objs st ! c = cell_objs st0 ! c"
proof -
  show "a < length (line_objs st0) \<Longrightarrow> line_objs st ! a = line_objs st0 ! a"
    using assms unfolding keeps_def by (metis nth_take)
  show "c < length (cell_objs st0) \<Longrightarrow> cell_objs st ! c = cell_objs st0 ! c"
    using assms unfolding keeps_def by (metis nth_take)
qed

lemma copy_cells_inv:
  assumes "copying st0 st (ml, mc)" and "copy_cells st mc c = (st1, mc1, c')"
  shows "copying st0 st1 (ml, mc1) \<and> length (cell_objs st0) \<le> c' \<and> c' < length (cell_objs st1) \<and>
         line_objs st1 = line_objs st"
proof (cases "mc c")
  case (Some c'')
  then have "st1 = st" "mc1 = mc" "c' = c''" using assms(2) by (simp_all add: copy_cells_def)
  then show ?thesis using assms(1) Some by (auto simp: copying_def memo_ok_def)
next
  case None
  then have eq: "st1 = st\<lparr>cell_objs := cell_objs st @ [cell_objs st ! c]\<rparr>"
    "mc1 = mc(c \<mapsto> length (cell_objs st))" "c' = length (cell_objs st)"
    using assms(2) by (auto simp: copy_cells_def)
  have k: "keeps st0 st" and ab: "above st0 st" and m: "memo_ok st0 st (ml, mc)"
    using assms(1) by (simp_all add: copying_def)
  have len: "length (cell_objs st0) \<le> length (cell_objs st)"
    using keeps_length [OF k] by simp
  have "keeps st0 st1" using k len by (simp add: keeps_def eq)
  moreover have "above st0 st1" using ab by (auto simp: above_def eq)
  moreover have "memo_ok st0 st1 (ml, mc1)"
    using m len by (auto simp: memo_ok_def eq intro: less_SucI)
  ultimately show ?thesis using len by (simp add: copying_def eq)
qed

lemma copy_line_inv:
  assumes "copying st0 st memo" and "copy_line st memo a = (st1, memo1, a')"
  shows "copying st0 st1 memo1 \<and> length (line_objs st0) \<le> a' \<and> a' < length (line_objs st1) \<and>
         length (line_objs st) \<le> length (line_objs st1)"
proof (cases "fst memo a")
  case (Some a'')
  then have "st1 = st" "memo1 = memo" "a' = a''" using assms(2) by (simp_all add: copy_line_def)
  then show ?thesis using assms(1) Some by (auto simp: copying_def memo_ok_def)
next
  case None
  obtain st2 mc c' where cc: "copy_cells st (snd memo) (snd (line_objs st ! a)) = (st2, mc, c')"
    by (metis prod_cases3)
  have eq: "st1 = st2\<lparr>line_objs := line_objs st2 @ [(fst (line_objs st ! a), c')]\<rparr>"
    "memo1 = ((fst memo)(a \<mapsto> length (line_objs st2)), mc)" "a' = length (line_objs st2)"
    using assms(2) None cc by (auto simp: copy_line_def)
  have "copying st0 st (fst memo, snd memo)" using assms(1) by simp
  from copy_cells_inv [OF this cc]
  have c2: "copying st0 st2 (fst memo, mc)" and c': "length (cell_objs st0) \<le> c'"
    "c' < length (cell_objs st2)" and l2: "line_objs st2 = line_objs st"
    by simp_all
  have k: "keeps st0 st2" and ab: "above st0 st2" and m: "memo_ok st0 st2 (fst memo, mc)"
    using c2 by (simp_all add: copying_def)
  have len: "length (line_objs st0) \<le> length (line_objs st2)"
    using keeps_length [OF k] by simp
  have "keeps st0 st1" using k len by (simp add: keeps_def eq)
  moreover have "above st0 st1"
    unfolding above_def
  proof (intro allI impI)
    fix x assume x: "length (line_objs st0) \<le> x \<and> x < length (line_objs st1)"
    show "length (cell_objs st0) \<le> snd (line_objs st1 ! x) \<and>
          snd (line_objs st1 ! x) < length (cell_objs st1)"
    proof (cases "x < length (line_objs st2)")
      case True
      then show ?thesis using ab x by (simp add: above_def eq nth_append)
    next
      case False
      then have "x = length (line_objs st2)" using x by (simp add: eq)
      then show ?thesis using c' by (simp add: eq)
    qed
  qed
  moreover have "memo_ok st0 st1 memo1"
    using m len by (auto simp: memo_ok_def eq intro: less_SucI)
  ultimately show ?thesis using len l2 by (simp add: copying_def eq)
qed

lemma copy_lines_inv:
  assumes "copying st0 st memo" and "copy_lines st memo as = (st1, memo1, as')"
  shows "copying st0 st1 memo1 \<and> length as' = length as \<and>
         (\<forall>a' \<in> set as'. length (line_objs st0) \<le> a' \<and> a' < length (line_objs st1)) \<and>
         length (line_objs st) \<le> length (line_objs st1)"
  using assms
proof (induction as arbitrary: st memo st1 memo1 as')
  case Nil
  then show ?case by simp
next
  case (Cons a as)
  obtain st2 memo2 a2 where cl: "copy_line st memo a = (st2, memo2, a2)"
    by (metis prod_cases3)
  obtain st3 memo3 as3 where cls: "copy_lines st2 memo2 as = (st3, memo3, as3)"
    by (metis prod_cases3)
  have eq: "st1 = st3" "memo1 = memo3" "as' = a2 # as3"
    using Cons.prems(2) cl cls by simp_all
  from copy_line_inv [OF Cons.prems(1) cl]
  have c2: "copying st0 st2 memo2" and a2: "length (line_objs st0) \<le> a2"
    "a2 < length (line_objs st2)" and g2: "length (line_objs st) \<le> length (line_objs st2)"
    by simp_all
  from Cons.IH [OF c2 cls]
  have c3: "copying st0 st3 memo3" and l3: "length as3 = length as"
    and as3: "\<forall>a' \<in> set as3. length (line_objs st0) \<le> a' \<and> a' < length (line_objs st3)"
    and g3: "length (line_objs st2) \<le> length (line_objs st3)"
    by simp_all
  show ?case using c3 l3 as3 a2 g2 g3 by (simp add: eq)
qed

definition board_addrs :: "board_ref \<Rightarrow> nat list" where
  "board_addrs b = rows_ref b @ left_ref b @ right_ref b"

lemma deepcopy_inv:
  assumes "deepcopy st b = (st1, b')"
  shows "keeps st st1 \<and> above st st1 \<and>
         (\<forall>a' \<in> set (board_addrs b'). length (line_objs st) \<le> a' \<and> a' < length (line_objs st1)) \<and>
         length (rows_ref b') = length (rows_ref b) \<and> length (left_ref b') = length (left_ref b) \<and>
         length (right_ref b') = length (right_ref b)"
proof -
  obtain s1 m1 rs where 1: "copy_lines st (Map.empty, Map.empty) (rows_ref b) = (s1, m1, rs)"
    by (metis prod_cases3)
  obtain s2 m2 ls where 2: "copy_lines s1 m1 (left_ref b) = (s2, m2, ls)"
    by (metis prod_cases3)
  obtain s3 m3 rs' where 3: "copy_lines s2 m2 (right_ref b) = (s3, m3, rs')"
    by (metis prod_cases3)
  have eq: "st1 = s3" "b' = \<lparr>rows_ref = rs, left_ref = ls, right_ref = rs'\<rparr>"
    using assms 1 2 3 by (simp_all add: deepcopy_def)
  have c0: "copying st st (Map.empty, Map.empty)"
    by (simp add: copying_def keeps_refl above_def memo_ok_def)
  note i1 = copy_lines_inv [OF c0 1]
  note i2 = copy_lines_inv [OF i1 [THEN conjunct1] 2]
  note i3 = copy_lines_inv [OF i2 [THEN conjunct1] 3]
  have "\<forall>a' \<in> set (rs @ ls @ rs'). length (line_objs st) \<le> a' \<and> a' < length (line_objs s3)"
    using i1 i2 i3 by fastforce
  then show ?thesis using i1 i2 i3 by (simp add: eq copying_def board_addrs_def)
qed

lemma move_to_board_ref_inv:
  assumes "keeps st0 st" and "above st0 st"
    and "length (line_objs st0) \<le> a" and "a < length (line_objs st)"
    and "move_to_board_ref st sc a move p = (st1, sc1)"
  shows "keeps st0 st1 \<and> above st0 st1 \<and> length (line_objs st1) = length (line_objs st)"
proof -
  obtain sc' tag cells where m: "move_to_board sc (read_line st a) move p = (sc', (tag, cells))"
    by (metis prod_cases3)
  let ?c = "snd (line_objs st ! a)"
  have eq: "st1 = st\<lparr>cell_objs := (cell_objs st)[?c := cells],
                       line_objs := (line_objs st)[a := (tag, ?c)]\<rparr>"
    using assms(5) m by (auto simp: move_to_board_ref_def)
  have c: "length (cell_objs st0) \<le> ?c" using assms(2,3,4) by (simp add: above_def)
  have "keeps st0 st1" using assms(1,3) c by (simp add: keeps_def eq)
  moreover have "above st0 st1"
    unfolding above_def
  proof (intro allI impI)
    fix x assume x: "length (line_objs st0) \<le> x \<and> x < length (line_objs st1)"
    have "snd (line_objs st1 ! x) = snd (line_objs st ! x)"
      using x by (cases "x = a") (simp_all add: eq)
    then show "length (cell_objs st0) \<le> snd (line_objs st1 ! x) \<and>
          snd (line_objs st1 ! x) < length (cell_objs st1)"
      using assms(2) x by (simp add: above_def eq)
  qed
  ultimately show ?thesis by (simp add: eq)
qed

lemma move_lines_ref_inv:
  assumes "keeps st0 st" and "above st0 st"
    and "\<forall>a \<in> set as. length (line_objs st0) \<le> a \<and> a < length (line_objs st)"
    and "move_lines_ref st sc as move p = (st1, sc1)"
  shows "keeps st0 st1 \<and> above st0 st1 \<and> length (line_objs st1) = length (line_objs st)"
  using assms
proof (induction as arbitrary: st sc)
  case Nil
  then show ?case by simp
next
  case (Cons a as)
  obtain st2 sc2 where 1: "move_to_board_ref st sc a move p = (st2, sc2)"
    by (metis surj_pair)
  have 2: "move_lines_ref st2 sc2 as move p = (st1, sc1)"
    using Cons.prems(4) 1 by simp
  have a: "length (line_objs st0) \<le> a" "a < length (line_objs st)"
    using Cons.prems(3) by simp_all
  from move_to_board_ref_inv [OF Cons.prems(1,2) a 1]
  have k: "keeps st0 st2" "above st0 st2" and l: "length (line_objs st2) = length (line_objs st)"
    by simp_all
  have "\<forall>a \<in> set as. length (line_objs st0) \<le> a \<and> a < length (line_objs st2)"
    using Cons.prems(3) l by simp
  from Cons.IH [OF k this 2] show ?case using l by simp
qed

text \<open>The frame of one call: whatever the state and the move, every object of the store
  is as it was, and the new state's board is made of new objects only.\<close>

lemma make_move_ref_frame:
  assumes "make_move_ref st s move = (st', s')"
  shows "keeps st st' \<and> above st st' \<and>
         (\<forall>a \<in> set (board_addrs (ref_board s')).
            length (line_objs st) \<le> a \<and> a < length (line_objs st'))"
proof -
  obtain st1 b where d: "deepcopy st (ref_board s) = (st1, b)" by (metis surj_pair)
  let ?p = "if \<not> ref_p1_turn s then ''2'' else ''1''"
  obtain st2 sc where m: "move_lines_ref st1 (ref_p1_score s, ref_p2_score s) (board_addrs b) move ?p = (st2, sc)"
    by (metis surj_pair)
  have eq: "st' = st2" "ref_board s' = b"
    using assms d m by (auto simp: make_move_ref_def Let_def board_addrs_def)
  from deepcopy_inv [OF d]
  have k: "keeps st st1" "above st st1"
    and fresh: "\<forall>a \<in> set (board_addrs b). length (line_objs st) \<le> a \<and> a < length (line_objs st1)"
    by simp_all
  from move_lines_ref_inv [OF k fresh m]
  show ?thesis using fresh by (simp add: eq)
qed

definition valid_state :: "store \<Rightarrow> state_ref \<Rightarrow> bool" where
  "valid_state st s =
     list_all (\<lambda>a. a < length (line_objs st) \<and> snd (line_objs st ! a) < length (cell_objs st))
       (board_addrs (ref_board s))"

text \<open>Any number of later calls, each on any state and with any move.\<close>

fun later_calls :: "store \<Rightarrow> (state_ref \<times> string) list \<Rightarrow> store" where
  "later_calls st [] = st"
| "later_calls st ((s, move) # calls) = later_calls (fst (make_move_ref st s move)) calls"

lemma keeps_trans:
  assumes 1: "keeps st0 st1" and 2: "keeps st1 st2"
  shows "keeps st0 st2"
proof -
  have l: "length (line_objs st0) \<le> length (line_objs st1)"
    "length (cell_objs st0) \<le> length (cell_objs st1)"
    using keeps_length [OF 1] by simp_all
  have a: "take (length (line_objs st1)) (line_objs st2) = line_objs st1"
    and b: "take (length (cell_objs st1)) (cell_objs st2) = cell_objs st1"
    using 2 by (simp_all add: keeps_def)
  have a0: "take (length (line_objs st0)) (line_objs st1) = line_objs st0"
    and b0: "take (length (cell_objs st0)) (cell_objs st1) = cell_objs st0"
    using 1 by (simp_all add: keeps_def)
  have "take (length (line_objs st0)) (take (length (line_objs st1)) (line_objs st2)) =
        take (length (line_objs st0)) (line_objs st2)"
    using l(1) by (simp add: min_absorb1)
  then have x: "take (length (line_objs st0)) (line_objs st2) = line_objs st0"
    unfolding a a0 by simp
  have "take (length (cell_objs st0)) (take (length (cell_objs st1)) (cell_objs st2)) =
        take (length (cell_objs st0)) (cell_objs st2)"
    using l(2) by (simp add: min_absorb1)
  then have y: "take (length (cell_objs st0)) (cell_objs st2) = cell_objs st0"
    unfolding b b0 by simp
  show ?thesis using x y by (simp add: keeps_def)
qed

lemma keeps_later_calls: "keeps st (later_calls st calls)"
proof (induction calls arbitrary: st)
  case Nil
  show ?case by (simp add: keeps_refl)
next
  case (Cons call calls)
  obtain s move where call: "call = (s, move)" by (cases call)
  obtain st1 s1 where m: "make_move_ref st s move = (st1, s1)" by (metis surj_pair)
  have "keeps st st1" using make_move_ref_frame [OF m] by simp
  moreover have "keeps st1 (later_calls st1 calls)" by (rule Cons.IH)
  ultimately show ?case using call m by (simp add: keeps_trans)
qed

lemma read_line_kept:
  assumes "keeps st0 st" and "a < length (line_objs st0)"
    and "snd (line_objs st0 ! a) < length (cell_objs st0)"
  shows "read_line st a = read_line st0 a"
  using keeps_nth [OF assms(1)] assms(2,3) by (simp add: read_line_def)

lemma read_state_kept:
  assumes "keeps st0 st" and "valid_state st0 s"
  shows "read_state st s = read_state st0 s"
proof -
  have "read_line st a = read_line st0 a" if "a \<in> set (board_addrs (ref_board s))" for a
    using assms(2) that read_line_kept [OF assms(1)] by (simp add: valid_state_def list_all_iff)
  then show ?thesis
    by (simp add: read_state_def read_board_def board_addrs_def)
qed

subsection \<open>The state returned on the store reads as the state \<^verbatim>\<open>make_move\<close> computes\<close>

definition cells_ref :: "store \<Rightarrow> nat \<Rightarrow> nat" where
  "cells_ref st a = snd (line_objs st ! a)"

definition unshared :: "store \<Rightarrow> nat list \<Rightarrow> bool" where
  "unshared st as =
     (distinct as \<and> distinct (map (cells_ref st) as) \<and>
      (\<forall>a \<in> set as. a < length (line_objs st) \<and> cells_ref st a < length (cell_objs st)))"

lemma copy_lines_append:
  "copy_lines st memo (xs @ ys) =
     (case copy_lines st memo xs of (st1, memo1, xs') \<Rightarrow>
        (case copy_lines st1 memo1 ys of (st2, memo2, ys') \<Rightarrow> (st2, memo2, xs' @ ys')))"
  by (induction xs arbitrary: st memo) (simp_all split: prod.splits)

lemma copy_line_fresh:
  assumes "fst memo a = None" and "snd memo (cells_ref st a) = None"
  shows "copy_line st memo a =
         (st\<lparr>cell_objs := cell_objs st @ [cell_objs st ! cells_ref st a],
             line_objs := line_objs st @ [(fst (line_objs st ! a), length (cell_objs st))]\<rparr>,
          ((fst memo)(a \<mapsto> length (line_objs st)),
           (snd memo)(cells_ref st a \<mapsto> length (cell_objs st))),
          length (line_objs st))"
  using assms by (simp add: copy_line_def copy_cells_def cells_ref_def)

lemma copy_lines_unshared:
  assumes "unshared st as"
    and "\<forall>a \<in> set as. fst memo a = None \<and> snd memo (cells_ref st a) = None"
    and "copy_lines st memo as = (st1, memo1, as')"
  shows "map (read_line st1) as' = map (read_line st) as \<and>
         unshared st1 as' \<and>
         (\<forall>a' \<in> set as'. length (line_objs st) \<le> a' \<and> length (cell_objs st) \<le> cells_ref st1 a') \<and>
         keeps st st1"
  using assms
proof (induction as arbitrary: st memo st1 memo1 as')
  case Nil
  then show ?case by (simp add: unshared_def keeps_refl)
next
  case (Cons a as)
  let ?c = "cells_ref st a"
  define st2 where "st2 = st\<lparr>cell_objs := cell_objs st @ [cell_objs st ! ?c],
             line_objs := line_objs st @ [(fst (line_objs st ! a), length (cell_objs st))]\<rparr>"
  define memo2 where "memo2 = ((fst memo)(a \<mapsto> length (line_objs st)),
           (snd memo)(?c \<mapsto> length (cell_objs st)))"
  have un: "distinct as" "a \<notin> set as" "distinct (map (cells_ref st) as)"
    "?c \<notin> cells_ref st ` set as"
    "a < length (line_objs st)" "?c < length (cell_objs st)"
    "\<forall>x \<in> set as. x < length (line_objs st) \<and> cells_ref st x < length (cell_objs st)"
    using Cons.prems(1) by (simp_all add: unshared_def)
  have cl: "copy_line st memo a = (st2, memo2, length (line_objs st))"
    unfolding st2_def memo2_def using Cons.prems(2) by (intro copy_line_fresh) simp_all
  obtain as2 where cls: "copy_lines st2 memo2 as = (st1, memo1, as2)"
    and as': "as' = length (line_objs st) # as2"
    using Cons.prems(3) cl by (auto split: prod.splits)
  have k2: "keeps st st2" by (simp add: keeps_def st2_def)
  have same_line: "line_objs st2 ! x = line_objs st ! x" if "x < length (line_objs st)" for x
    using that by (simp add: st2_def nth_append)
  have same_cell: "cell_objs st2 ! x = cell_objs st ! x" if "x < length (cell_objs st)" for x
    using that by (simp add: st2_def nth_append)
  have cref2: "cells_ref st2 x = cells_ref st x" if "x < length (line_objs st)" for x
    using that by (simp add: cells_ref_def same_line)
  have read2: "read_line st2 x = read_line st x"
    if "x < length (line_objs st)" "cells_ref st x < length (cell_objs st)" for x
    using that by (simp add: read_line_def same_line same_cell cells_ref_def)
  have map_cref: "map (cells_ref st2) as = map (cells_ref st) as"
    using un(7) by (simp add: cref2)
  have len2: "length (line_objs st2) = Suc (length (line_objs st))"
    "length (cell_objs st2) = Suc (length (cell_objs st))"
    by (simp_all add: st2_def)
  have "\<forall>x \<in> set as. x < length (line_objs st2) \<and> cells_ref st2 x < length (cell_objs st2)"
    using un(7) len2 by (auto simp: cref2)
  then have un2: "unshared st2 as"
    using un(1,3) unfolding unshared_def map_cref by simp
  have memo2_none: "\<forall>x \<in> set as. fst memo2 x = None \<and> snd memo2 (cells_ref st2 x) = None"
  proof
    fix x assume x: "x \<in> set as"
    have "x \<noteq> a" using x un(2) by auto
    moreover have "cells_ref st x \<noteq> ?c" using x un(4) by (metis imageI)
    moreover have "cells_ref st2 x = cells_ref st x" using x un(7) by (simp add: cref2)
    ultimately show "fst memo2 x = None \<and> snd memo2 (cells_ref st2 x) = None"
      using Cons.prems(2) x by (simp add: memo2_def)
  qed
  from Cons.IH [OF un2 memo2_none cls]
  have ih: "map (read_line st1) as2 = map (read_line st2) as" "unshared st1 as2"
    "\<forall>a' \<in> set as2. length (line_objs st2) \<le> a' \<and> length (cell_objs st2) \<le> cells_ref st1 a'"
    "keeps st2 st1"
    by simp_all
  let ?a' = "length (line_objs st)"
  have a2: "?a' < length (line_objs st2)" "line_objs st2 ! ?a' = (fst (line_objs st ! a), length (cell_objs st))"
    "length (cell_objs st) < length (cell_objs st2)"
    "cell_objs st2 ! length (cell_objs st) = cell_objs st ! ?c"
    by (simp_all add: st2_def nth_append)
  have line1: "line_objs st1 ! ?a' = line_objs st2 ! ?a'"
    using keeps_nth(1) [OF ih(4) a2(1)] .
  have cell1: "cell_objs st1 ! length (cell_objs st) = cell_objs st2 ! length (cell_objs st)"
    using keeps_nth(2) [OF ih(4) a2(3)] .
  have read_a: "read_line st1 ?a' = read_line st a"
    using line1 cell1 a2 by (simp add: read_line_def cells_ref_def)
  have cref_a: "cells_ref st1 ?a' = length (cell_objs st)"
    using line1 a2 by (simp add: cells_ref_def)
  have len1: "length (line_objs st2) \<le> length (line_objs st1)"
    "length (cell_objs st2) \<le> length (cell_objs st1)"
    using keeps_length [OF ih(4)] by simp_all
  have "map (read_line st2) as = map (read_line st) as"
    using un(7) by (simp add: read2)
  then have 1: "map (read_line st1) as' = map (read_line st) (a # as)"
    using ih(1) read_a by (simp add: as')
  have notin: "?a' \<notin> set as2" using ih(3) len2 by auto
  have cnotin: "length (cell_objs st) \<notin> cells_ref st1 ` set as2" using ih(3) len2 by auto
  have 2: "unshared st1 as'"
    using ih(2) notin cnotin cref_a len1 len2 by (auto simp: unshared_def as')
  have 3: "\<forall>a' \<in> set as'. length (line_objs st) \<le> a' \<and> length (cell_objs st) \<le> cells_ref st1 a'"
    using ih(3) len2 cref_a by (auto simp: as')
  have 4: "keeps st st1" using k2 ih(4) by (rule keeps_trans)
  show ?case using 1 2 3 4 by blast
qed

lemma move_to_board_ref_read:
  assumes "a < length (line_objs st)" and "cells_ref st a < length (cell_objs st)"
    and "move_to_board_ref st sc a move p = (st1, sc1)"
  shows "sc1 = add_score p (if captured_now move p (read_line st a) then 1 else 0) sc"
    and "read_line st1 a = line_after move p (read_line st a)"
    and "length (line_objs st1) = length (line_objs st)"
    and "length (cell_objs st1) = length (cell_objs st)"
    and "\<And>x. cells_ref st1 x = cells_ref st x"
    and "\<And>x. x \<noteq> a \<Longrightarrow> cells_ref st x \<noteq> cells_ref st a \<Longrightarrow> read_line st1 x = read_line st x"
proof -
  let ?l = "line_after move p (read_line st a)"
  let ?c = "snd (line_objs st ! a)"
  have eq: "st1 = st\<lparr>cell_objs := (cell_objs st)[?c := snd ?l],
                       line_objs := (line_objs st)[a := (fst ?l, ?c)]\<rparr>"
    and sc: "sc1 = add_score p (if captured_now move p (read_line st a) then 1 else 0) sc"
    using assms(3) by (auto simp: move_to_board_ref_def move_to_board_line split: prod.splits)
  show "sc1 = add_score p (if captured_now move p (read_line st a) then 1 else 0) sc" by (rule sc)
  show "read_line st1 a = ?l"
    using assms(1,2) by (simp add: eq read_line_def cells_ref_def)
  show "length (line_objs st1) = length (line_objs st)" by (simp add: eq)
  show "length (cell_objs st1) = length (cell_objs st)" by (simp add: eq)
  show c: "cells_ref st1 x = cells_ref st x" for x
    using assms(1) by (cases "x = a") (simp_all add: eq cells_ref_def)
  show "read_line st1 x = read_line st x" if "x \<noteq> a" "cells_ref st x \<noteq> cells_ref st a" for x
    using that by (simp add: eq read_line_def cells_ref_def)
qed

lemma move_lines_ref_read:
  assumes "unshared st as" and "move_lines_ref st sc as move p = (st1, sc1)"
  shows "sc1 = add_score p (captures move p (map (read_line st) as)) sc \<and>
         map (read_line st1) as = map (line_after move p) (map (read_line st) as) \<and>
         (\<forall>x. x \<notin> set as \<and> cells_ref st x \<notin> cells_ref st ` set as \<longrightarrow>
              read_line st1 x = read_line st x) \<and>
         cells_ref st1 = cells_ref st \<and>
         length (line_objs st1) = length (line_objs st) \<and>
         length (cell_objs st1) = length (cell_objs st)"
  using assms
proof (induction as arbitrary: st sc)
  case Nil
  then show ?case by (cases sc) (simp add: captures_def add_score_def)
next
  case (Cons a as)
  have un: "distinct as" "a \<notin> set as" "distinct (map (cells_ref st) as)"
    "cells_ref st a \<notin> cells_ref st ` set as"
    "a < length (line_objs st)" "cells_ref st a < length (cell_objs st)"
    "\<forall>x \<in> set as. x < length (line_objs st) \<and> cells_ref st x < length (cell_objs st)"
    using Cons.prems(1) by (simp_all add: unshared_def)
  obtain st2 sc2 where 1: "move_to_board_ref st sc a move p = (st2, sc2)" by (metis surj_pair)
  have 2: "move_lines_ref st2 sc2 as move p = (st1, sc1)" using Cons.prems(2) 1 by simp
  note r = move_to_board_ref_read [OF un(5,6) 1]
  have cref: "cells_ref st2 = cells_ref st" using r(5) by (rule ext)
  have un2: "unshared st2 as"
    using un(1,3,7) r(3,4) by (simp add: unshared_def cref)
  have keep: "read_line st2 x = read_line st x" if "x \<in> set as" for x
  proof -
    have "x \<noteq> a" using that un(2) by auto
    moreover have "cells_ref st x \<noteq> cells_ref st a" using that un(4) by (metis imageI)
    ultimately show ?thesis by (rule r(6))
  qed
  then have maps: "map (read_line st2) as = map (read_line st) as" by simp
  from Cons.IH [OF un2 2]
  have ih: "sc1 = add_score p (captures move p (map (read_line st2) as)) sc2"
    "map (read_line st1) as = map (line_after move p) (map (read_line st2) as)"
    "\<forall>x. x \<notin> set as \<and> cells_ref st2 x \<notin> cells_ref st2 ` set as \<longrightarrow>
         read_line st1 x = read_line st2 x"
    "cells_ref st1 = cells_ref st2"
    "length (line_objs st1) = length (line_objs st2)"
    "length (cell_objs st1) = length (cell_objs st2)"
    by simp_all
  have a1: "read_line st1 a = read_line st2 a"
    using ih(3) un(2,4) by (simp add: cref)
  have s: "sc1 = add_score p (captures move p (map (read_line st) (a # as))) sc"
    unfolding ih(1) r(1) maps by (simp add: add_score_add captures_def)
  have m: "map (read_line st1) (a # as) = map (line_after move p) (map (read_line st) (a # as))"
    using ih(2) a1 r(2) maps by simp
  have f: "read_line st1 x = read_line st x"
    if "x \<notin> set (a # as) \<and> cells_ref st x \<notin> cells_ref st ` set (a # as)" for x
  proof -
    have "read_line st1 x = read_line st2 x" using ih(3) that by (simp add: cref)
    moreover have "read_line st2 x = read_line st x" using that by (intro r(6)) auto
    ultimately show ?thesis by simp
  qed
  show ?case using s m f ih(4,5,6) cref r(3,4) by auto
qed

lemma deepcopy_copy_lines:
  assumes "deepcopy st b = (st1, b')"
  shows "\<exists>memo1. copy_lines st (Map.empty, Map.empty) (board_addrs b) = (st1, memo1, board_addrs b')"
  using assms
  by (auto simp: deepcopy_def board_addrs_def copy_lines_append split: prod.splits)

lemma split3:
  assumes "xs @ ys @ zs = xs' @ ys' @ zs'" and "length xs = length xs'" and "length ys = length ys'"
  shows "xs = xs' \<and> ys = ys' \<and> zs = zs'"
  using assms by simp

text \<open>On a board whose ley-line lists and cell lists are each used once, as
  \<^verbatim>\<open>__init__\<close> builds them and as \<^verbatim>\<open>deepcopy\<close> keeps them, the state returned on the
  store reads as \<^verbatim>\<open>make_move\<close> of what the given state reads as.\<close>

lemma make_move_ref_refines:
  assumes "unshared st (board_addrs (ref_board s))" and "make_move_ref st s move = (st', s')"
  shows "read_state st' s' = make_move (read_state st s) move"
    and "unshared st' (board_addrs (ref_board s'))"
proof -
  let ?b = "ref_board s"
  let ?p = "if \<not> ref_p1_turn s then ''2'' else ''1''"
  obtain st1 b' where d: "deepcopy st ?b = (st1, b')" by (metis surj_pair)
  obtain st2 sc where m: "move_lines_ref st1 (ref_p1_score s, ref_p2_score s) (board_addrs b') move ?p = (st2, sc)"
    by (metis surj_pair)
  have eq: "st' = st2"
    "s' = \<lparr>ref_p1_turn = (?p = ''2''), ref_board = b', ref_p1_score = fst sc,
           ref_p2_score = snd sc, ref_length = ref_length s\<rparr>"
    using assms(2) d m by (auto simp: make_move_ref_def Let_def board_addrs_def)
  obtain memo1 where cl: "copy_lines st (Map.empty, Map.empty) (board_addrs ?b) = (st1, memo1, board_addrs b')"
    using deepcopy_copy_lines [OF d] by blast
  have lens: "length (rows_ref b') = length (rows_ref ?b)" "length (left_ref b') = length (left_ref ?b)"
    using deepcopy_inv [OF d] by simp_all
  from copy_lines_unshared [OF assms(1) _ cl]
  have c: "map (read_line st1) (board_addrs b') = map (read_line st) (board_addrs ?b)"
    "unshared st1 (board_addrs b')"
    by simp_all
  from move_lines_ref_read [OF c(2) m]
  have r: "sc = add_score ?p (captures move ?p (map (read_line st1) (board_addrs b')))
                  (ref_p1_score s, ref_p2_score s)"
    "map (read_line st2) (board_addrs b') =
     map (line_after move ?p) (map (read_line st1) (board_addrs b'))"
    "cells_ref st2 = cells_ref st1"
    "length (line_objs st2) = length (line_objs st1)"
    "length (cell_objs st2) = length (cell_objs st1)"
    by simp_all
  have all: "map (read_line st2) (board_addrs b') =
             map (line_after move ?p) (map (read_line st) (board_addrs ?b))"
    using r(2) c(1) by simp
  have "map (read_line st2) (rows_ref b') @ map (read_line st2) (left_ref b') @
          map (read_line st2) (right_ref b') =
        map (line_after move ?p) (map (read_line st) (rows_ref ?b)) @
          map (line_after move ?p) (map (read_line st) (left_ref ?b)) @
          map (line_after move ?p) (map (read_line st) (right_ref ?b))"
    using all by (simp add: board_addrs_def)
  then have parts: "map (read_line st2) (rows_ref b') = map (line_after move ?p) (map (read_line st) (rows_ref ?b))
      \<and> map (read_line st2) (left_ref b') = map (line_after move ?p) (map (read_line st) (left_ref ?b))
      \<and> map (read_line st2) (right_ref b') = map (line_after move ?p) (map (read_line st) (right_ref ?b))"
    by (rule split3) (simp_all add: lens)
  have mv: "mover (read_state st s) = ?p" by (simp add: mover_def read_state_def)
  have al: "all_lines (cur_board (read_state st s)) = map (read_line st) (board_addrs ?b)"
    by (simp add: all_lines_def read_state_def read_board_def board_addrs_def)
  show "read_state st' s' = make_move (read_state st s) move"
    unfolding make_move_eq [of "read_state st s" move] mv al
    using parts r(1) c(1)
    by (simp add: eq read_state_def read_board_def)
  show "unshared st' (board_addrs (ref_board s'))"
    using c(2) r(3,4,5) by (simp add: unshared_def eq)
qed

section \<open>The claims\<close>

subsection \<open>C1\<close>

text \<open>
  C1. In every non-terminal state reached from a fresh game by legal moves,
  \<^verbatim>\<open>minimax_recursive\<close> and \<^verbatim>\<open>minimax_iterative\<close> both return a move, the iterative
  search included (its loop ends), and the states the two moves lead to have the same
  value under \<^verbatim>\<open>max_score\<close>; the two moves are in fact the same legal move.
\<close>

theorem C1_recursive_iterative_agree:
  assumes "new_game n t = Inr g" and "play (current_state g) moves = Some s"
    and "\<not> is_over g s"
  shows "\<exists>m_rec m_iter v.
           minimax_recursive (g\<lparr>current_state := s\<rparr>) = Inr m_rec \<and>
           minimax_iterative (g\<lparr>current_state := s\<rparr>) = Some (Inr m_iter) \<and>
           max_score g (make_move s m_rec) = Inr v \<and>
           max_score g (make_move s m_iter) = Inr v \<and>
           m_rec = m_iter \<and> m_rec \<in> set (get_possible_moves s)"
proof -
  let ?ms = "get_possible_moves s"
  let ?f = "\<lambda>m. - 1 * negamax g (make_move s m)"
  have good: "good g s" using assms(1,2) by (rule good_reachable)
  have ne: "?ms \<noteq> []" using good assms(3) by (rule good_moves)
  obtain i where i: "i < length ?ms" "choose_move (map ?f ?ms) ?ms = Inr (?ms ! i)"
    using choose_move_best [OF ne, of ?f] by blast
  have m: "?ms ! i \<in> set ?ms" using i(1) by simp
  have "minimax_recursive (g\<lparr>current_state := s\<rparr>) = Inr (?ms ! i)"
    using minimax_recursive_eq [OF good assms(3)] i(2) by simp
  moreover have "minimax_iterative (g\<lparr>current_state := s\<rparr>) = Some (Inr (?ms ! i))"
    using minimax_iterative_eq [OF good assms(3)] i(2) by simp
  moreover have "max_score g (make_move s (?ms ! i)) = Inr (negamax g (make_move s (?ms ! i)))"
    using max_score_negamax [OF good_step [OF good m]] by simp
  ultimately show ?thesis using m by blast
qed

theorem C1_witness:
  "new_game 2 True = Inr game2 \<and>
   play (current_state game2) [''A'', ''B'', ''D''] = Some state2_ABD \<and>
   \<not> is_over game2 state2_ABD \<and>
   (\<exists>m_rec m_iter v.
      minimax_recursive (game2\<lparr>current_state := state2_ABD\<rparr>) = Inr m_rec \<and>
      minimax_iterative (game2\<lparr>current_state := state2_ABD\<rparr>) = Some (Inr m_iter) \<and>
      max_score game2 (make_move state2_ABD m_rec) = Inr v \<and>
      max_score game2 (make_move state2_ABD m_iter) = Inr v \<and>
      m_rec = m_iter \<and> m_rec \<in> set (get_possible_moves state2_ABD))"
proof -
  have h1: "new_game 2 True = Inr game2" by (rule new_game_2)
  have h2: "play (current_state game2) [''A'', ''B'', ''D''] = Some state2_ABD"
    by (rule play_state2_ABD)
  have h3: "\<not> is_over game2 state2_ABD" by code_simp
  show ?thesis using h1 h2 h3 C1_recursive_iterative_agree [OF h1 h2 h3] by blast
qed

subsection \<open>C2\<close>

text \<open>
  C2 (as the code has it). In every non-terminal state reached from a fresh game by legal
  moves, \<^verbatim>\<open>minimax_recursive\<close> returns a legal move that maximizes the negated value of
  the successor, where the value of a state is \<^verbatim>\<open>max_score\<close>: the terminal score in a
  terminal state, and otherwise the maximum over the moves of -1 times the value of the
  successor (\<^verbatim>\<open>negamax\<close>); \<^verbatim>\<open>max_score\<close> returns that value, without raising, for
  the state and for each of its successors.
\<close>

theorem C2_minimax_recursive_optimal:
  assumes "new_game n t = Inr g" and "play (current_state g) moves = Some s"
    and "\<not> is_over g s"
  shows "\<exists>m. minimax_recursive (g\<lparr>current_state := s\<rparr>) = Inr m \<and>
              m \<in> set (get_possible_moves s) \<and>
              (\<forall>m' \<in> set (get_possible_moves s).
                 - 1 * negamax g (make_move s m') \<le> - 1 * negamax g (make_move s m)) \<and>
              negamax g s = - 1 * negamax g (make_move s m) \<and>
              max_score g s = Inr (negamax g s) \<and>
              (\<forall>m' \<in> set (get_possible_moves s).
                 max_score g (make_move s m') = Inr (negamax g (make_move s m')))"
proof -
  let ?ms = "get_possible_moves s"
  let ?f = "\<lambda>m. - 1 * negamax g (make_move s m)"
  have good: "good g s" using assms(1,2) by (rule good_reachable)
  have ne: "?ms \<noteq> []" using good assms(3) by (rule good_moves)
  obtain i where i: "i < length ?ms" "choose_move (map ?f ?ms) ?ms = Inr (?ms ! i)"
    "\<forall>m' \<in> set ?ms. ?f m' \<le> ?f (?ms ! i)"
    using choose_move_best [OF ne, of ?f] by blast
  let ?m = "?ms ! i"
  have m: "?m \<in> set ?ms" using i(1) by simp
  have r: "minimax_recursive (g\<lparr>current_state := s\<rparr>) = Inr ?m"
    using minimax_recursive_eq [OF good assms(3)] i(2) by simp
  have "?f ?m \<in> set (map ?f ?ms)" using m by simp
  then have "Max (set (map ?f ?ms)) = ?f ?m"
    using i(3) by (intro Max_eqI) auto
  then have v: "negamax g s = ?f ?m" using assms(3) by (simp add: negamax_step)
  have "max_score g s = Inr (negamax g s)" using max_score_negamax [OF good] by simp
  moreover have "\<forall>m' \<in> set ?ms. max_score g (make_move s m') = Inr (negamax g (make_move s m'))"
    using max_score_negamax [OF good_step [OF good]] by simp
  ultimately show ?thesis using r m i(3) v by blast
qed

theorem C2_witness:
  "new_game 2 True = Inr game2 \<and>
   play (current_state game2) [''A'', ''B'', ''D''] = Some state2_ABD \<and>
   \<not> is_over game2 state2_ABD \<and>
   (\<exists>m. minimax_recursive (game2\<lparr>current_state := state2_ABD\<rparr>) = Inr m \<and>
        m \<in> set (get_possible_moves state2_ABD) \<and>
        (\<forall>m' \<in> set (get_possible_moves state2_ABD).
           - 1 * negamax game2 (make_move state2_ABD m') \<le>
           - 1 * negamax game2 (make_move state2_ABD m)) \<and>
        negamax game2 state2_ABD = - 1 * negamax game2 (make_move state2_ABD m) \<and>
        max_score game2 state2_ABD = Inr (negamax game2 state2_ABD) \<and>
        (\<forall>m' \<in> set (get_possible_moves state2_ABD).
           max_score game2 (make_move state2_ABD m') = Inr (negamax game2 (make_move state2_ABD m'))))"
proof -
  have h1: "new_game 2 True = Inr game2" by (rule new_game_2)
  have h2: "play (current_state game2) [''A'', ''B'', ''D''] = Some state2_ABD"
    by (rule play_state2_ABD)
  have h3: "\<not> is_over game2 state2_ABD" by code_simp
  show ?thesis using h1 h2 h3 C2_minimax_recursive_optimal [OF h1 h2 h3] by blast
qed

text \<open>
  C2 as the claim states it, with the value of a state being -1 times the maximum of the
  successors' values, fails on the side-length-2 game, whichever way a move is valued
  for the mover. After the moves A, B, D \<^verbatim>\<open>minimax_recursive\<close> returns C, and by that
  formula the negated value of the successor is strictly greater for F than for C. After
  the moves A, E, B it returns F, and by that formula the value of the successor is
  strictly greater for G than for F.
\<close>

theorem C2_counterexample:
  "new_game 2 True = Inr game2 \<and>
   play (current_state game2) [''A'', ''B'', ''D''] = Some state2_ABD \<and>
   \<not> is_over game2 state2_ABD \<and>
   minimax_recursive (game2\<lparr>current_state := state2_ABD\<rparr>) = Inr ''C'' \<and>
   ''F'' \<in> set (get_possible_moves state2_ABD) \<and>
   - 1 * negamax_spec game2 (make_move state2_ABD ''C'') <
   - 1 * negamax_spec game2 (make_move state2_ABD ''F'') \<and>
   play (current_state game2) [''A'', ''E'', ''B''] = Some state2_AEB \<and>
   \<not> is_over game2 state2_AEB \<and>
   minimax_recursive (game2\<lparr>current_state := state2_AEB\<rparr>) = Inr ''F'' \<and>
   ''G'' \<in> set (get_possible_moves state2_AEB) \<and>
   negamax_spec game2 (make_move state2_AEB ''F'') <
   negamax_spec game2 (make_move state2_AEB ''G'')"
  by code_simp

subsection \<open>C3\<close>

text \<open>
  C3. In every state reached from a fresh game by legal moves, \<^verbatim>\<open>is_over\<close> holds
  exactly when \<^verbatim>\<open>get_possible_moves\<close> is empty; it holds exactly when one of the
  scores is at least \<^verbatim>\<open>3 * (N + 1) / 2\<close> in real division, which for the integer
  scores is the ceiling of that number. Nothing in the test looks at the cells, so the
  game is over at the threshold whether or not free cells remain.
\<close>

theorem C3_terminal_agreement:
  assumes "new_game n t = Inr g" and "play (current_state g) moves = Some s"
  shows "(is_over g s = (get_possible_moves s = [])) \<and>
         (is_over g s =
            (real_of_int (p1_score s) \<ge> real_of_int (3 * (n + 1)) / 2
             \<or> real_of_int (p2_score s) \<ge> real_of_int (3 * (n + 1)) / 2)) \<and>
         (is_over g s =
            (p1_score s \<ge> \<lceil>real_of_int (3 * (n + 1)) / 2\<rceil>
             \<or> p2_score s \<ge> \<lceil>real_of_int (3 * (n + 1)) / 2\<rceil>))"
proof -
  have ok: "state_ok s" and ov: "is_over g s = over_threshold s"
    using is_over_reachable [OF assms] by simp_all
  have 1: "is_over g s = (get_possible_moves s = [])"
    using ov no_moves_iff_over [OF ok] by simp
  have g: "game_length g = n" using new_game_ok [OF assms(1)] by simp
  have 2: "is_over g s =
            (real_of_int (p1_score s) \<ge> real_of_int (3 * (n + 1)) / 2
             \<or> real_of_int (p2_score s) \<ge> real_of_int (3 * (n + 1)) / 2)"
    unfolding is_over_def half_ley_lines_def g ..
  have 3: "(real_of_int p \<ge> real_of_int (3 * (n + 1)) / 2) = (p \<ge> \<lceil>real_of_int (3 * (n + 1)) / 2\<rceil>)" for p
    by (simp only: ceiling_le_iff)
  show ?thesis using 1 2 unfolding 3 by blast
qed

theorem C3_witness:
  "new_game 1 True = Inr game1 \<and> play (current_state game1) [''A''] = Some state1_A \<and>
   is_over game1 state1_A \<and> get_possible_moves state1_A = [] \<and> free_rows state1_A = [''B'', ''C''] \<and>
   p1_score state1_A \<ge> \<lceil>real_of_int (3 * (1 + 1)) / 2\<rceil>"
proof -
  have h1: "new_game 1 True = Inr game1" by (rule new_game_1)
  have h2: "play (current_state game1) [''A''] = Some state1_A" by code_simp
  have o: "is_over game1 state1_A" by code_simp
  have f: "free_rows state1_A = [''B'', ''C'']" by code_simp
  have p: "p1_score state1_A = 3" by code_simp
  show ?thesis using h1 h2 o f p C3_terminal_agreement [OF h1 h2] by simp
qed

subsection \<open>C4\<close>

text \<open>
  C4 (as the code has it). The fresh side-length-1 board has six ley-lines: the rows
  \<^verbatim>\<open>{A,B}\<close> and \<^verbatim>\<open>{C}\<close>, the down-left diagonals \<^verbatim>\<open>{A}\<close> and \<^verbatim>\<open>{B,C}\<close>, the
  down-right diagonals \<^verbatim>\<open>{B}\<close> and \<^verbatim>\<open>{A,C}\<close>. With player 1 to move, the move
  \<^verbatim>\<open>"A"\<close> captures the three lines through \<^verbatim>\<open>A\<close> (the row \<^verbatim>\<open>{A,B}\<close>, the
  diagonal \<^verbatim>\<open>{A}\<close> and the diagonal \<^verbatim>\<open>{A,C}\<close>), so \<^verbatim>\<open>p1_score\<close> is 3, which
  reaches the threshold 3: the resulting state is terminal and has no possible moves.
\<close>

theorem C4_move_A_side_length_1:
  "new_game 1 True = Inr game1 \<and> current_state game1 = state1 \<and>
   make_move state1 ''A'' =
     \<lparr>p1_turn = False,
      cur_board = \<lparr>rows = [(''1'', [''1'', ''B'']), (''n'', [''C''])],
                   left = [(''1'', [''1'']), (''n'', [''B'', ''C''])],
                   right = [(''n'', [''B'']), (''1'', [''1'', ''C''])]\<rparr>,
      p1_score = 3, p2_score = 0, st_length = 1\<rparr> \<and>
   is_over game1 (make_move state1 ''A'') \<and>
   get_possible_moves (make_move state1 ''A'') = []"
  by code_simp

text \<open>
  C4 as the claim states it (the move captures two lines, \<^verbatim>\<open>p1_score\<close> is 2 and the
  state is not terminal) fails on the fresh side-length-1 game.
\<close>

theorem C4_counterexample:
  "\<not> (p1_score (make_move (current_state game1) ''A'') = 2 \<and>
      \<not> is_over game1 (make_move (current_state game1) ''A''))"
  by code_simp

subsection \<open>C5\<close>

text \<open>
  C5 (as the code has it). \<^verbatim>\<open>make_move\<close> has no check of the label and raises
  nothing: for every state and every label it returns a state. When the label equals no
  cell entry of any ley-line, the returned state has the board and the scores of the
  state it was called on, and the turn is flipped.
\<close>

theorem C5_unmatched_label_is_ignored:
  assumes "move \<notin> set (concat (map snd (all_lines (cur_board s))))"
  shows "make_move s move = s\<lparr>p1_turn := \<not> p1_turn s\<rparr>"
proof -
  have m: "move \<notin> set (concat (map snd (rows (cur_board s))))"
    "move \<notin> set (concat (map snd (left (cur_board s))))"
    "move \<notin> set (concat (map snd (right (cur_board s))))"
    using assms by (simp_all add: all_lines_def)
  have c: "captures move (mover s) (all_lines (cur_board s)) = 0"
    using assms by (rule captures_absent)
  have r: "map (line_after move (mover s)) (rows (cur_board s)) = rows (cur_board s)"
    using m(1) by (rule map_line_after_absent)
  have l: "map (line_after move (mover s)) (left (cur_board s)) = left (cur_board s)"
    using m(2) by (rule map_line_after_absent)
  have r': "map (line_after move (mover s)) (right (cur_board s)) = right (cur_board s)"
    using m(3) by (rule map_line_after_absent)
  show ?thesis
    unfolding make_move_eq [of s move] r l r' c by (simp add: add_score_def)
qed

theorem C5_witness:
  "''Z'' \<notin> set (concat (map snd (all_lines (cur_board state1)))) \<and>
   make_move state1 ''Z'' = state1\<lparr>p1_turn := \<not> p1_turn state1\<rparr>"
proof -
  have h: "''Z'' \<notin> set (concat (map snd (all_lines (cur_board state1))))"
    by code_simp
  show ?thesis using h C5_unmatched_label_is_ignored [OF h] by simp
qed

text \<open>
  C5 as the claim states it fails: the label \<^verbatim>\<open>"Z"\<close> names no unclaimed cell of the
  fresh side-length-1 game, and \<^verbatim>\<open>make_move\<close> returns a state all the same.
\<close>

theorem C5_counterexample:
  "''Z'' \<notin> set (get_possible_moves state1) \<and>
   make_move state1 ''Z'' = state1\<lparr>p1_turn := False\<rparr>"
  by code_simp

subsection \<open>C6\<close>

text \<open>
  C6. \<^verbatim>\<open>make_move\<close> on a state \<^verbatim>\<open>s1\<close> whose board lies in the store returns a state
  \<^verbatim>\<open>s2\<close> and leaves \<^verbatim>\<open>s1\<close> reading as before: every tag and every cell of its rows
  and of its two kinds of diagonal, and its scores. The ley-line lists and the cell lists
  of \<^verbatim>\<open>s2\<close> are all new objects, none of them an object that existed before the call;
  and after any further calls of \<^verbatim>\<open>make_move\<close>, on \<^verbatim>\<open>s2\<close> or on any other state,
  \<^verbatim>\<open>s1\<close> still reads as before. Where no list of the board of \<^verbatim>\<open>s1\<close> is used twice,
  \<^verbatim>\<open>s2\<close> reads as \<^verbatim>\<open>make_move\<close> of what \<^verbatim>\<open>s1\<close> reads as.
\<close>

theorem C6_make_move_leaves_state_unchanged:
  assumes "valid_state st s1" and "make_move_ref st s1 move = (st', s2)"
  shows "read_state st' s1 = read_state st s1 \<and>
         read_state (later_calls st' calls) s1 = read_state st s1 \<and>
         (\<forall>a \<in> set (board_addrs (ref_board s2)).
            length (line_objs st) \<le> a \<and> a < length (line_objs st') \<and>
            length (cell_objs st) \<le> snd (line_objs st' ! a) \<and>
            snd (line_objs st' ! a) < length (cell_objs st')) \<and>
         (unshared st (board_addrs (ref_board s1)) \<longrightarrow>
            read_state st' s2 = make_move (read_state st s1) move)"
proof -
  have f: "keeps st st'" "above st st'"
    and new: "\<forall>a \<in> set (board_addrs (ref_board s2)).
               length (line_objs st) \<le> a \<and> a < length (line_objs st')"
    using make_move_ref_frame [OF assms(2)] by simp_all
  have 1: "read_state st' s1 = read_state st s1"
    using f(1) assms(1) by (rule read_state_kept)
  have "keeps st (later_calls st' calls)"
    using f(1) keeps_later_calls by (rule keeps_trans)
  then have 2: "read_state (later_calls st' calls) s1 = read_state st s1"
    using assms(1) by (rule read_state_kept)
  have 3: "unshared st (board_addrs (ref_board s1)) \<longrightarrow>
            read_state st' s2 = make_move (read_state st s1) move"
    using make_move_ref_refines(1) [OF _ assms(2)] by blast
  show ?thesis using 1 2 3 new f(2) by (auto simp: above_def)
qed

theorem C6_witness:
  "valid_state store1 state1_ref \<and> unshared store1 (board_addrs (ref_board state1_ref)) \<and>
   read_state (fst (make_move_ref store1 state1_ref ''A'')) state1_ref = read_state store1 state1_ref \<and>
   read_state (later_calls (fst (make_move_ref store1 state1_ref ''A''))
                 [(snd (make_move_ref store1 state1_ref ''A''), ''B''), (state1_ref, ''C'')])
     state1_ref = state1 \<and>
   read_state (fst (make_move_ref store1 state1_ref ''A'')) (snd (make_move_ref store1 state1_ref ''A''))
     = make_move (read_state store1 state1_ref) ''A'' \<and>
   board_addrs (ref_board (snd (make_move_ref store1 state1_ref ''A''))) = [6, 7, 8, 9, 10, 11]"
proof -
  have h1: "valid_state store1 state1_ref" by code_simp
  have h2: "make_move_ref store1 state1_ref ''A'' =
            (fst (make_move_ref store1 state1_ref ''A''), snd (make_move_ref store1 state1_ref ''A''))"
    by simp
  have u: "unshared store1 (board_addrs (ref_board state1_ref))" by code_simp
  have r: "read_state store1 state1_ref = state1" by (rule read_state1)
  have a: "board_addrs (ref_board (snd (make_move_ref store1 state1_ref ''A''))) = [6, 7, 8, 9, 10, 11]"
    by code_simp
  show ?thesis
    using h1 u r a
      C6_make_move_leaves_state_unchanged [OF h1 h2,
        of "[(snd (make_move_ref store1 state1_ref ''A''), ''B''), (state1_ref, ''C'')]"]
    by simp
qed

subsection \<open>C7\<close>

text \<open>
  C7. A region's capture tag, once it is not \<^verbatim>\<open>'n'\<close>, is the same after any
  sequence of \<^verbatim>\<open>make_move\<close> calls, legal or not, from any state; the regions are
  numbered through the rows, the down-left and the down-right diagonals.
\<close>

theorem C7_capture_status_monotone:
  "length (region_tags (cur_board (foldl make_move s moves))) = length (region_tags (cur_board s)) \<and>
   (\<forall>i < length (region_tags (cur_board s)).
      region_tags (cur_board s) ! i \<noteq> ''n'' \<longrightarrow>
      region_tags (cur_board (foldl make_move s moves)) ! i = region_tags (cur_board s) ! i)"
proof (induction moves arbitrary: s)
  case Nil
  show ?case by simp
next
  case (Cons m ms)
  show ?case using Cons.IH [of "make_move s m"] region_tags_make_move [of s m]
    by simp
qed

theorem C7_witness:
  "region_tags (cur_board state1_A) ! 0 \<noteq> ''n'' \<and>
   region_tags (cur_board (foldl make_move state1_A [''B'', ''C''])) ! 0 =
   region_tags (cur_board state1_A) ! 0"
proof -
  have h: "region_tags (cur_board state1_A) ! 0 \<noteq> ''n''" by code_simp
  have l: "0 < length (region_tags (cur_board state1_A))" by code_simp
  show ?thesis using h l C7_capture_status_monotone [of state1_A "[''B'', ''C'']"] by blast
qed

subsection \<open>C8\<close>

text \<open>
  C8. For a state reached from a fresh game by legal moves and a legal move of it: when
  the successor is terminal it has no possible moves, and otherwise it has exactly one
  possible move fewer than the state.
\<close>

theorem C8_move_set_shrinks:
  assumes "new_game n t = Inr g" and "play (current_state g) moves = Some s"
    and "m \<in> set (get_possible_moves s)"
  shows "if is_over g (make_move s m) then get_possible_moves (make_move s m) = []
         else length (get_possible_moves (make_move s m)) + 1 = length (get_possible_moves s)"
proof -
  let ?s = "make_move s m"
  have ok: "state_ok s" and len: "st_length s = game_length g"
    using is_over_reachable [OF assms(1,2)] by simp_all
  have ov: "is_over g ?s = over_threshold ?s"
    using len by (simp add: is_over_int over_threshold_def)
  have now: "get_possible_moves s = free_rows s" and m: "m \<in> set (free_rows s)"
    using assms(3) by (simp_all add: get_possible_moves_int split: if_splits)
  show ?thesis
  proof (cases "over_threshold ?s")
    case True
    then show ?thesis using ov by (simp add: get_possible_moves_int)
  next
    case False
    have "distinct (free_rows s)" using ok by (simp add: state_ok_def)
    then have "length (filter (\<lambda>c. c \<noteq> m) (free_rows s)) + 1 = length (free_rows s)"
      using m by (rule length_filter_distinct)
    then show ?thesis
      using False ov now by (simp add: get_possible_moves_int free_rows_make_move)
  qed
qed

theorem C8_witness:
  "new_game 2 True = Inr game2 \<and> play (current_state game2) [] = Some state2 \<and>
   ''A'' \<in> set (get_possible_moves state2) \<and> \<not> is_over game2 (make_move state2 ''A'') \<and>
   length (get_possible_moves (make_move state2 ''A'')) + 1 = length (get_possible_moves state2)"
proof -
  have h1: "new_game 2 True = Inr game2" by (rule new_game_2)
  have h2: "play (current_state game2) [] = Some state2" by code_simp
  have h3: "''A'' \<in> set (get_possible_moves state2)" by code_simp
  have n: "\<not> is_over game2 (make_move state2 ''A'')" by code_simp
  show ?thesis using h1 h2 h3 n C8_move_set_shrinks [OF h1 h2 h3] by simp
qed

subsection \<open>C9\<close>

text \<open>
  C9. \<^verbatim>\<open>rough_outcome\<close> returns one of -1, 0 and 1, so a value in the interval from
  -1 to 1, for every state; it returns -1 whenever \<^verbatim>\<open>get_possible_moves\<close> is empty.
\<close>

theorem C9_rough_outcome_bound:
  "- 1 \<le> rough_outcome s \<and> rough_outcome s \<le> 1 \<and>
   (get_possible_moves s = [] \<longrightarrow> rough_outcome s = - 1)"
proof -
  have "rough_outcome s \<in> {- 1, 0, 1}"
    using rough_loop_range [of s "get_possible_moves s" True]
    by (simp add: rough_outcome_def LOSE_def)
  moreover have "get_possible_moves s = [] \<longrightarrow> rough_outcome s = - 1"
    by (simp add: rough_outcome_def LOSE_def)
  ultimately show ?thesis by auto
qed

theorem C9_witness:
  "get_possible_moves state1_A = [] \<and> rough_outcome state1_A = - 1 \<and>
   - 1 \<le> rough_outcome state2 \<and> rough_outcome state2 \<le> 1"
proof -
  have h: "get_possible_moves state1_A = []" by code_simp
  show ?thesis
    using h C9_rough_outcome_bound [of state1_A] C9_rough_outcome_bound [of state2] by simp
qed

subsection \<open>C10\<close>

text \<open>
  C10. In a terminal state \<^verbatim>\<open>is_winner\<close> holds for exactly one of \<^verbatim>\<open>'p1'\<close> and
  \<^verbatim>\<open>'p2'\<close>, namely for the player whose turn it is not; \<^verbatim>\<open>max_score\<close> and the
  terminal branch of \<^verbatim>\<open>minimax_iterative\<close> both give the score -1, never the
  draw's 0. This holds for every terminal state, reachable or not.
\<close>

theorem C10_terminal_score:
  assumes "is_over g (current_state g)"
  shows "is_winner g ''p1'' \<noteq> is_winner g ''p2'' \<and>
         is_winner g ''p1'' = (\<not> p1_turn (current_state g)) \<and>
         is_winner g ''p2'' = p1_turn (current_state g) \<and>
         max_score g (current_state g) = Inr (- 1) \<and>
         iter_terminal_score g = - 1"
  using is_winner_over [OF assms] max_score_over [OF assms] iter_terminal_score_over [OF assms]
  by auto

theorem C10_witness:
  "is_over (game1\<lparr>current_state := state1_A\<rparr>) state1_A \<and>
   is_winner (game1\<lparr>current_state := state1_A\<rparr>) ''p1'' \<and>
   \<not> is_winner (game1\<lparr>current_state := state1_A\<rparr>) ''p2'' \<and>
   max_score (game1\<lparr>current_state := state1_A\<rparr>) state1_A = Inr (- 1) \<and>
   iter_terminal_score (game1\<lparr>current_state := state1_A\<rparr>) = - 1"
proof -
  have h: "is_over (game1\<lparr>current_state := state1_A\<rparr>)
             (current_state (game1\<lparr>current_state := state1_A\<rparr>))"
    by code_simp
  have t: "\<not> p1_turn state1_A" by code_simp
  show ?thesis using h t C10_terminal_score [OF h] by simp
qed

end
